theory Spec2Isabelle
  imports Complex_Main "HOL-Library.Word" "HOL-Library.Multiset"
begin

section \<open>Floating-point arithmetic of the widget\<close>

text \<open>
  The widget computes with \<open>float\<close> fields (\<open>angle\<close>, \<open>c_sph\<close>, \<open>c_cyl\<close>, \<open>c_pos\<close>,
  \<open>c_brightness\<close>: each is handed to \<open>setUniformValue\<close>, which has a \<open>GLfloat\<close> overload
  and none for \<open>double\<close>) and with \<open>double\<close> constants (\<open>0.01\<close>, \<open>0.66\<close>, \<open>2.5\<close>). A
  floating-point value is modelled by the rational number it denotes, and every operation
  by the exact operation followed by IEEE-754 rounding to nearest, ties to even, to the
  precision of the result type: 24 significant bits for \<open>float\<close>, 53 for \<open>double\<close>. The
  exponent range is not modelled: no value of the widget that the theorems below reach
  leaves the normal range of its type.
\<close>

fun bitlen :: "nat \<Rightarrow> nat" where
  "bitlen n = (if n = 0 then 0 else Suc (bitlen (n div 2)))"

declare bitlen.simps [simp del]

definition ilog2 :: "rat \<Rightarrow> int" where
  \<comment> \<open>for \<open>0 < x\<close>: the integer \<open>k\<close> with \<open>2 ^ k \<le> x < 2 ^ (k + 1)\<close>\<close>
  "ilog2 x = (if 1 \<le> x then int (bitlen (nat \<lfloor>x\<rfloor>)) - 1
              else - int (bitlen (nat (\<lceil>1 / x\<rceil> - 1))))"

definition rne :: "nat \<Rightarrow> rat \<Rightarrow> rat" where
  \<comment> \<open>round to nearest, ties to even, to \<open>p\<close> significant bits\<close>
  "rne p x =
     (if x = 0 then 0
      else let a = \<bar>x\<bar>;
               e = ilog2 a - int p + 1;
               s = a / (2 powi e);
               m = \<lfloor>s\<rfloor>;
               f = s - of_int m;
               m' = (if f < 1 / 2 then m
                     else if 1 / 2 < f then m + 1
                     else if even m then m else m + 1)
           in sgn x * (of_int m' * (2 powi e)))"

definition round_nat :: "nat \<Rightarrow> nat \<Rightarrow> nat" where
  \<comment> \<open>the same rounding on a numerator: \<open>n\<close> to \<open>p\<close> significant bits (see \<open>rne_dyadic\<close>)\<close>
  "round_nat p n =
     (let k = bitlen n - p;
          m = n div 2 ^ k;
          r = n mod 2 ^ k
      in (if 2 * r < 2 ^ k then m
          else if 2 ^ k < 2 * r then m + 1
          else if even m then m else m + 1) * 2 ^ k)"

definition to_float :: "rat \<Rightarrow> rat" where
  "to_float x = rne 24 x"

definition to_double :: "rat \<Rightarrow> rat" where
  "to_double x = rne 53 x"

definition trunc_int :: "rat \<Rightarrow> int" where
  \<comment> \<open>\<open>static_cast<int>\<close> of a floating-point value: truncation toward zero\<close>
  "trunc_int x = (if 0 \<le> x then \<lfloor>x\<rfloor> else \<lceil>x\<rceil>)"

definition wrap32 :: "int \<Rightarrow> int" where
  \<comment> \<open>narrowing of an integer to the 32-bit \<open>int\<close>\<close>
  "wrap32 n = (let m = n mod 2 ^ 32 in if m < 2 ^ 31 then m else m - 2 ^ 32)"

section \<open>Constants and data of \<open>trigram.cc\<close>\<close>

text \<open>
  A member \<open>name_\<close> of the class is the field \<open>name\<close> of the record \<open>widget\<close>; the
  locals \<open>size\<close> and \<open>sum\<close> of \<open>suggestBrightness\<close> are \<open>sz\<close> and \<open>sm\<close>.
\<close>

definition k_minimum_brightness :: int where
  "k_minimum_brightness = 25"

definition k_maximum_brightness :: int where
  "k_maximum_brightness = 103"

definition k_brightness_heuristic_threshold :: rat where
  \<comment> \<open>the \<open>double\<close> nearest to the literal \<open>0.66\<close>\<close>
  "k_brightness_heuristic_threshold = to_double (66 / 100)"

definition k_brightness_heuristic_min :: int where
  "k_brightness_heuristic_min = 38"

definition k_brightness_heuristic_max :: int where
  "k_brightness_heuristic_max = 66"

definition k_brightness_heuristic_scaling :: rat where
  \<comment> \<open>\<open>2.5\<close> is a \<open>double\<close> as it stands\<close>
  "k_brightness_heuristic_scaling = 5 / 2"

definition k_step :: rat where
  \<comment> \<open>the \<open>double\<close> nearest to the literal \<open>0.01\<close> of \<open>timerEvent\<close>\<close>
  "k_step = to_double (1 / 100)"

type_synonym byte = "8 word"

datatype error = IndexOutOfRange | DivisionByZero | NullPointer

datatype EVisualisationShape = CUBE | CYLINDER | SPHERE

datatype EVisualisationMode = TRIGRAM | LAYERED_DIGRAM

datatype manipulator = Spin | Trackball | Free

datatype icon = PlayIcon | PauseIcon

datatype QEvent = MouseMove bool | KeyPress int | OtherEvent

text \<open>
  The manipulators, the signal \<open>manipulatorChanged\<close> and the base class \<open>QWidget\<close> are
  collaborators whose code is outside \<open>trigram.cc\<close>. What the widget does to them is
  recorded, in order, as a list of calls.
\<close>

datatype call =
    InitFromMatrix manipulator manipulator
  | ProcessEvent manipulator QEvent
  | ManipulatorChanged "manipulator option"
  | SetFocus
  | QWidgetEvent QEvent

record button =
  button_icon :: icon
  button_enabled :: bool

record widget =
  data :: "byte list"
  angle :: rat
  c_sph :: rat
  c_cyl :: rat
  c_pos :: rat
  c_brightness :: rat
  shape :: EVisualisationShape
  mode :: EVisualisationMode
  brightness :: int
  is_playing :: bool
  use_brightness_heuristic :: bool
  current_manipulator :: "manipulator option"
  event_filters :: "manipulator list"
  pause_button :: "button option"
  brightness_slider :: "int option"
  calls :: "call list"

section \<open>Brightness\<close>

definition vec_at :: "'a list \<Rightarrow> int \<Rightarrow> error + 'a" where
  \<comment> \<open>\<open>v[i]\<close>; the error stands for the undefined behaviour of a read out of range\<close>
  "vec_at xs i = (if 0 \<le> i \<and> i < int (length xs) then Inr (xs ! nat i) else Inl IndexOutOfRange)"

function count_loop :: "byte list \<Rightarrow> int \<Rightarrow> int \<Rightarrow> nat list \<Rightarrow> error + nat list" where
  \<comment> \<open>the \<open>for\<close> loop: \<open>counts[data[i]] += 1\<close> on \<open>uint64_t\<close> buckets\<close>
  "count_loop d sz i counts =
     (if i < sz then
        (case vec_at d i of
           Inl e \<Rightarrow> Inl e
         | Inr b \<Rightarrow>
            (case vec_at counts (uint b) of
               Inl e \<Rightarrow> Inl e
             | Inr c \<Rightarrow> count_loop d sz (i + 1) (counts[nat (uint b) := (c + 1) mod 2 ^ 64])))
      else Inr counts)"
  by pat_completeness auto
termination
  by (relation "measure (\<lambda>(d, sz, i, counts). nat (sz - i))") auto

declare count_loop.simps [simp del]

function walk :: "nat list \<Rightarrow> int \<Rightarrow> int \<Rightarrow> int \<Rightarrow> error + (int \<times> int)" where
  \<comment> \<open>the \<open>while\<close> loop: \<open>sum\<close> and \<open>size\<close> become \<open>double\<close>s as they stand, the product is
     rounded; \<open>sum += counts[...]\<close> adds a \<open>uint64_t\<close> and narrows to \<open>int\<close>\<close>
  "walk counts sz offset sm =
     (if offset < 255 \<and> of_int sm < to_double (k_brightness_heuristic_threshold * of_int sz) then
        (case vec_at counts (255 - offset) of
           Inl e \<Rightarrow> Inl e
         | Inr c \<Rightarrow> walk counts sz (offset + 1) (wrap32 (sm + int c)))
      else Inr (offset, sm))"
  by pat_completeness auto
termination
  by (relation "measure (\<lambda>(counts, sz, offset, sm). nat (255 - offset))") auto

declare walk.simps [simp del]

definition suggestBrightness :: "byte list \<Rightarrow> error + int" where
  \<comment> \<open>\<open>d\<close> is the buffer of \<open>getData()\<close>, its length \<open>getDataSize()\<close>, narrowed to \<open>int size\<close>\<close>
  "suggestBrightness d =
     (let sz = wrap32 (int (length d)) in
      if sz < 100 then Inr ((k_minimum_brightness + k_maximum_brightness) div 2)
      else
        (case count_loop d sz 0 (replicate 256 0) of
           Inl e \<Rightarrow> Inl e
         | Inr counts \<Rightarrow>
            (case walk (sort counts) sz 0 0 of
               Inl e \<Rightarrow> Inl e
             | Inr (offset, sm) \<Rightarrow>
                 Inr (max k_brightness_heuristic_min
                       (k_brightness_heuristic_max
                        - trunc_int (to_double (of_int offset / k_brightness_heuristic_scaling)))))))"

definition fmul :: "rat \<Rightarrow> rat \<Rightarrow> rat" where
  "fmul a b = to_float (a * b)"

definition setBrightness :: "int \<Rightarrow> widget \<Rightarrow> error + widget" where
  \<comment> \<open>the products and the quotient are \<open>float\<close> operations; a division by zero (undefined
     in C++, an infinity or a NaN under IEEE-754) is the error \<open>DivisionByZero\<close>\<close>
  "setBrightness v w =
     (let c = fmul (fmul (to_float (of_int v)) (to_float (of_int v))) (to_float (of_int v));
          n = length (data w)
      in if n = 0 then Inl DivisionByZero
         else Inr (w\<lparr>brightness := v, c_brightness := to_float (c / to_float (of_nat n))\<rparr>))"

definition autoSetBrightness :: "widget \<Rightarrow> error + widget" where
  \<comment> \<open>\<open>setValue\<close> on the slider comes back through \<open>brightnessSliderMoved\<close>, which returns
     at once since the value equals \<open>brightness_\<close>\<close>
  "autoSetBrightness w =
     (case suggestBrightness (data w) of
        Inl e \<Rightarrow> Inl e
      | Inr new_brightness \<Rightarrow>
          if new_brightness = brightness w then Inr w
          else
            let w1 = w\<lparr>brightness := new_brightness\<rparr>;
                w2 = (case brightness_slider w1 of
                        None \<Rightarrow> w1
                      | Some v \<Rightarrow> w1\<lparr>brightness_slider := Some (brightness w1)\<rparr>)
            in setBrightness (brightness w2) w2)"

definition refresh :: "widget \<Rightarrow> error + widget" where
  \<comment> \<open>the texture and the buffer that \<open>refresh\<close> rebuilds are not part of the model\<close>
  "refresh w =
     (case (if use_brightness_heuristic w then autoSetBrightness w else Inr w) of
        Inl e \<Rightarrow> Inl e
      | Inr w1 \<Rightarrow> setBrightness (brightness w1) w1)"

section \<open>Morphing\<close>

definition setMode :: "EVisualisationMode \<Rightarrow> bool \<Rightarrow> widget \<Rightarrow> widget" where
  "setMode m animate w =
     (let w1 = w\<lparr>mode := m\<rparr> in
      if mode w1 = LAYERED_DIGRAM \<and> \<not> animate then w1\<lparr>c_pos := 1\<rparr>
      else if mode w1 = TRIGRAM \<and> \<not> animate then w1\<lparr>c_pos := 0\<rparr>
      else w1)"

definition setShape :: "EVisualisationShape \<Rightarrow> widget \<Rightarrow> widget" where
  "setShape s w = w\<lparr>shape := s\<rparr>"

definition inc_step :: "rat \<Rightarrow> rat" where
  \<comment> \<open>\<open>c += 0.01\<close> on a \<open>float\<close>: the sum is a \<open>double\<close>, stored as a \<open>float\<close>\<close>
  "inc_step c = to_float (to_double (c + k_step))"

definition dec_step :: "rat \<Rightarrow> rat" where
  "dec_step c = to_float (to_double (c - k_step))"

text \<open>
  \<open>timerEvent\<close>, statement by statement: the angle, the steps of \<open>c_cyl\<close> and \<open>c_sph\<close>,
  their four clamps, and the two guarded steps of \<open>c_pos\<close> with their clamps. (\<open>update()\<close>
  only asks Qt for a repaint.)
\<close>

definition advance_angle :: "widget \<Rightarrow> widget" where
  "advance_angle w = (if is_playing w then w\<lparr>angle := to_float (angle w + 1 / 2)\<rparr> else w)"

definition step_shape_blends :: "widget \<Rightarrow> widget" where
  "step_shape_blends w =
     (let w1 = (if shape w = CYLINDER then w\<lparr>c_cyl := inc_step (c_cyl w)\<rparr>
                else w\<lparr>c_cyl := dec_step (c_cyl w)\<rparr>)
      in if shape w1 = SPHERE then w1\<lparr>c_sph := inc_step (c_sph w1)\<rparr>
         else w1\<lparr>c_sph := dec_step (c_sph w1)\<rparr>)"

definition clamp_shape_blends :: "widget \<Rightarrow> widget" where
  "clamp_shape_blends w =
     (let w1 = (if 1 < c_cyl w then w\<lparr>c_cyl := 1\<rparr> else w);
          w2 = (if c_cyl w1 < 0 then w1\<lparr>c_cyl := 0\<rparr> else w1);
          w3 = (if 1 < c_sph w2 then w2\<lparr>c_sph := 1\<rparr> else w2)
      in if c_sph w3 < 0 then w3\<lparr>c_sph := 0\<rparr> else w3)"

definition step_pos_blend :: "widget \<Rightarrow> widget" where
  "step_pos_blend w =
     (let w1 = (if mode w = LAYERED_DIGRAM \<and> c_pos w < 1 then
                  (let u = w\<lparr>c_pos := inc_step (c_pos w)\<rparr>
                   in if 1 < c_pos u then u\<lparr>c_pos := 1\<rparr> else u)
                else w)
      in if mode w1 \<noteq> LAYERED_DIGRAM \<and> c_pos w1 \<noteq> 0 then
           (let u = w1\<lparr>c_pos := dec_step (c_pos w1)\<rparr>
            in if c_pos u < 0 then u\<lparr>c_pos := 0\<rparr> else u)
         else w1)"

definition timerEvent :: "widget \<Rightarrow> widget" where
  "timerEvent w = step_pos_blend (clamp_shape_blends (step_shape_blends (advance_angle w)))"

datatype action = Tick | SetShape EVisualisationShape | SetMode EVisualisationMode bool

fun act :: "action \<Rightarrow> widget \<Rightarrow> widget" where
  "act Tick w = timerEvent w"
| "act (SetShape s) w = setShape s w"
| "act (SetMode m animate) w = setMode m animate w"

fun run :: "action list \<Rightarrow> widget \<Rightarrow> widget" where
  "run [] w = w"
| "run (a # as) w = run as (act a w)"

section \<open>Manipulators\<close>

definition playPause :: "widget \<Rightarrow> error + widget" where
  "playPause w =
     (case pause_button w of
        None \<Rightarrow> Inl NullPointer
      | Some b \<Rightarrow>
          Inr (w\<lparr>pause_button :=
                   Some (b\<lparr>button_icon := (if is_playing w then PlayIcon else PauseIcon)\<rparr>),
                 is_playing := \<not> is_playing w\<rparr>))"

definition manipulators :: "manipulator list" where
  "manipulators = [Spin, Trackball, Free]"

definition installEventFilter :: "manipulator option \<Rightarrow> widget \<Rightarrow> widget" where
  \<comment> \<open>Qt puts the newest filter first, drops an older entry of the same object and
     ignores a null pointer\<close>
  "installEventFilter mo w =
     (case mo of
        None \<Rightarrow> w
      | Some m \<Rightarrow> w\<lparr>event_filters := m # removeAll m (event_filters w)\<rparr>)"

definition setManipulator ::
  "(manipulator \<Rightarrow> bool) \<Rightarrow> manipulator option \<Rightarrow> widget \<Rightarrow> error + widget" where
  "setManipulator handlesPause mo w =
     (if mo = current_manipulator w then Inr w
      else
        let w1 = w\<lparr>event_filters := fold removeAll manipulators (event_filters w)\<rparr>;
            w2 = installEventFilter mo w1;
            w3 = (case (current_manipulator w2, mo) of
                    (Some old, Some new) \<Rightarrow> w2\<lparr>calls := calls w2 @ [InitFromMatrix new old]\<rparr>
                  | _ \<Rightarrow> w2);
            w4 = w3\<lparr>current_manipulator := mo\<rparr>
        in case (if \<not> is_playing w4 then playPause w4 else Inr w4) of
             Inl e \<Rightarrow> Inl e
           | Inr w5 \<Rightarrow>
              (case (case pause_button w5 of
                       None \<Rightarrow> Inr w5
                     | Some b \<Rightarrow>
                        (case current_manipulator w5 of
                           None \<Rightarrow> Inl NullPointer
                         | Some m \<Rightarrow>
                            Inr (w5\<lparr>pause_button :=
                                       Some (b\<lparr>button_enabled := handlesPause m\<rparr>)\<rparr>))) of
                 Inl e \<Rightarrow> Inl e
               | Inr w6 \<Rightarrow>
                   Inr (w6\<lparr>calls := calls w6
                                @ [ManipulatorChanged (current_manipulator w6), SetFocus]\<rparr>)))"

definition event ::
  "(manipulator \<Rightarrow> bool) \<Rightarrow> (int \<Rightarrow> bool) \<Rightarrow> QEvent \<Rightarrow> widget \<Rightarrow> error + widget" where
  "event handlesPause isCtrlButton ev w =
     (case (case ev of
              MouseMove left \<Rightarrow>
                if left \<and> current_manipulator w = Some Spin then
                  (case setManipulator handlesPause (Some Trackball) w of
                     Inl e \<Rightarrow> Inl e
                   | Inr w1 \<Rightarrow> Inr (w1\<lparr>calls := calls w1 @ [ProcessEvent Trackball ev]\<rparr>))
                else Inr w
            | KeyPress key \<Rightarrow>
                if (current_manipulator w = Some Spin \<or> current_manipulator w = Some Trackball)
                   \<and> isCtrlButton key then
                  (case setManipulator handlesPause (Some Free) w of
                     Inl e \<Rightarrow> Inl e
                   | Inr w1 \<Rightarrow> Inr (w1\<lparr>calls := calls w1 @ [ProcessEvent Trackball ev]\<rparr>))
                else Inr w
            | OtherEvent \<Rightarrow> Inr w) of
        Inl e \<Rightarrow> Inl e
      | Inr w2 \<Rightarrow> Inr (w2\<lparr>calls := calls w2 @ [QWidgetEvent ev]\<rparr>))"

section \<open>Construction and auxiliary notions\<close>

definition initial :: "byte list \<Rightarrow> widget" where
  \<comment> \<open>the members as the constructor's initialiser list leaves them, over the buffer \<open>d\<close>;
     \<open>c_brightness\<close> has no initialiser and is taken as 0\<close>
  "initial d =
     \<lparr>data = d, angle = 0, c_sph = 0, c_cyl = 0, c_pos = 0, c_brightness = 0,
      shape = CUBE, mode = TRIGRAM,
      brightness = (k_maximum_brightness + k_minimum_brightness) div 2,
      is_playing = True, use_brightness_heuristic = True,
      current_manipulator = None, event_filters = [],
      pause_button = None, brightness_slider = None, calls = []\<rparr>"

definition in_unit :: "rat \<Rightarrow> bool" where
  "in_unit c = (0 \<le> c \<and> c \<le> 1)"

definition blends_ok :: "widget \<Rightarrow> bool" where
  "blends_ok w = (in_unit (c_cyl w) \<and> in_unit (c_sph w) \<and> in_unit (c_pos w))"

definition tally :: "byte \<Rightarrow> nat list \<Rightarrow> nat list" where
  \<comment> \<open>the body of the counting loop: \<open>counts[b] += 1\<close> on a \<open>uint64_t\<close>\<close>
  "tally b counts = counts[unat b := (counts ! unat b + 1) mod 2 ^ 64]"

definition top_sum :: "nat list \<Rightarrow> nat \<Rightarrow> nat" where
  \<comment> \<open>the sum of the \<open>k\<close> largest buckets of an ascending vector\<close>
  "top_sum counts k = sum_list (take k (rev counts))"

definition reached :: "int \<Rightarrow> nat \<Rightarrow> bool" where
  \<comment> \<open>the running sum \<open>s\<close> has reached \<open>0.66 \<times> sz\<close>, in exact arithmetic\<close>
  "reached sz s = (66 * sz \<le> 100 * int s)"

definition up_nat :: "nat \<Rightarrow> nat" where
  \<comment> \<open>one tick of \<open>c_pos\<close> in \<open>LAYERED_DIGRAM\<close> mode, on numerators over \<open>2 ^ 59\<close>
     (see \<open>c_pos_tick_up_nat\<close>)\<close>
  "up_nat n =
     (if n < 2 ^ 59 then min (2 ^ 59) (round_nat 24 (round_nat 53 (n + 5764607523034235)))
      else n)"

section \<open>Properties of the rounding\<close>

lemma bitlen_0 [simp]: "bitlen 0 = 0"
  by (simp add: bitlen.simps)

lemma bitlen_pos: "0 < n \<Longrightarrow> bitlen n = Suc (bitlen (n div 2))"
  by (subst bitlen.simps) simp

lemma bitlen_bounds: "0 < n \<Longrightarrow> 2 ^ (bitlen n - 1) \<le> n \<and> n < 2 ^ bitlen n"
proof (induction n rule: bitlen.induct)
  case (1 n)
  show ?case
  proof (cases "n div 2 = 0")
    case True
    with 1(2) have "n = 1" by (simp add: div_eq_0_iff) 
    then show ?thesis by (simp add: bitlen_pos)
  next
    case False
    then have pos: "0 < n div 2" by simp
    from 1(1) 1(2) pos have ih: "2 ^ (bitlen (n div 2) - 1) \<le> n div 2 \<and> n div 2 < 2 ^ bitlen (n div 2)"
      by simp
    have bl: "bitlen n = Suc (bitlen (n div 2))" using 1(2) by (rule bitlen_pos)
    have "0 < bitlen (n div 2)" using pos by (simp add: bitlen_pos)
    then obtain j where j: "bitlen (n div 2) = Suc j" by (cases "bitlen (n div 2)") auto
    from ih j have "2 * 2 ^ j \<le> n" "n < 2 * 2 ^ Suc j" by auto
    then show ?thesis by (simp add: bl j)
  qed
qed

lemma bitlen_eqI: "2 ^ j \<le> n \<Longrightarrow> n < 2 ^ Suc j \<Longrightarrow> bitlen n = Suc j"
proof -
  assume a: "2 ^ j \<le> n" and b: "n < 2 ^ Suc j"
  have pos: "0 < n" using a by (metis not_gr_zero not_less zero_less_numeral zero_less_power)
  from bitlen_bounds [OF pos] have c: "2 ^ (bitlen n - 1) \<le> n" and d: "n < 2 ^ bitlen n" by auto
  have "(2::nat) ^ j < 2 ^ bitlen n" using a d by (rule le_less_trans)
  then have e: "j < bitlen n" by simp
  have "(2::nat) ^ (bitlen n - 1) < 2 ^ Suc j" using c b by (rule le_less_trans)
  then have "bitlen n - 1 < Suc j" by (rule power_less_imp_less_exp [of "2::nat", rotated]) simp
  with e show ?thesis by simp
qed

lemma ilog2_bounds:
  assumes "0 < x"
  shows "2 powi (ilog2 x) \<le> x \<and> x < 2 powi (ilog2 x + 1)"
proof (cases "1 \<le> x")
  case True
  define n where "n = nat \<lfloor>x\<rfloor>"
  have n1: "1 \<le> n" using True by (simp add: n_def le_nat_iff le_floor_iff)
  then have pos: "0 < n" by simp
  have fl: "0 \<le> \<lfloor>x\<rfloor>" using True by simp
  have nn: "(of_nat n :: rat) = of_int \<lfloor>x\<rfloor>" using fl unfolding n_def by simp
  have nx: "of_nat n \<le> x" unfolding nn by simp
  have xn: "x < of_nat n + 1" unfolding nn by linarith
  have il: "ilog2 x = int (bitlen n) - 1" using True by (simp add: ilog2_def n_def)
  have bp: "0 < bitlen n" using pos by (simp add: bitlen_pos)
  from bitlen_bounds [OF pos] have c: "2 ^ (bitlen n - 1) \<le> n" and d: "n < 2 ^ bitlen n" by auto
  have e1: "int (bitlen n) - 1 = int (bitlen n - 1)" using bp by simp
  have p1: "(2::rat) ^ (bitlen n - 1) \<le> of_nat n" using c
    by (metis of_nat_le_iff of_nat_numeral of_nat_power)
  have "(2::rat) powi (ilog2 x) = 2 ^ (bitlen n - 1)" unfolding il e1 by (rule power_int_of_nat)
  then have l: "2 powi (ilog2 x) \<le> x" using p1 nx by linarith
  have "Suc n \<le> 2 ^ bitlen n" using d by simp
  then have "(of_nat (Suc n) :: rat) \<le> 2 ^ bitlen n"
    by (metis of_nat_le_iff of_nat_numeral of_nat_power)
  then have "x < 2 ^ bitlen n" using xn by simp
  then have u: "x < 2 powi (ilog2 x + 1)" unfolding il by simp
  from l u show ?thesis by simp
next
  case False
  then have x1: "x < 1" by simp
  define y where "y = 1 / x"
  have y1: "1 < y" using assms x1 by (simp add: y_def)
  define c where "c = \<lceil>y\<rceil>"
  have c2: "2 \<le> c" using y1 unfolding c_def by (simp add: le_ceiling_iff) 
  define n where "n = nat (c - 1)"
  have pos: "0 < n" using c2 by (simp add: n_def)
  have nc: "int n = c - 1" using c2 by (simp add: n_def)
  have il: "ilog2 x = - int (bitlen n)" using False by (simp add: ilog2_def n_def c_def y_def)
  have bp: "0 < bitlen n" using pos by (simp add: bitlen_pos)
  from bitlen_bounds [OF pos] have cc: "2 ^ (bitlen n - 1) \<le> n" and d: "n < 2 ^ bitlen n" by auto
  have "of_int (c - 1) < y" unfolding c_def by linarith
  then have ny: "of_nat n < y" using nc by (metis of_int_of_nat_eq)
  have "(2::rat) ^ (bitlen n - 1) \<le> of_nat n" using cc
    by (metis of_nat_le_iff of_nat_numeral of_nat_power)
  then have "(2::rat) ^ (bitlen n - 1) < y" using ny by linarith
  then have "x * 2 ^ (bitlen n - 1) < 1" using assms by (simp add: y_def field_simps)
  then have "x < 1 / 2 ^ (bitlen n - 1)" by (simp add: field_simps)
  also have "\<dots> = 2 powi (- int (bitlen n - 1))" by (simp add: power_int_minus field_simps)
  also have "- int (bitlen n - 1) = ilog2 x + 1" using bp by (simp add: il)
  finally have u: "x < 2 powi (ilog2 x + 1)" .
  have "int n < 2 ^ bitlen n" using d by (metis of_nat_less_iff of_nat_numeral of_nat_power)
  then have "c \<le> 2 ^ bitlen n" using nc by linarith
  then have "(of_int c :: rat) \<le> 2 ^ bitlen n" by (metis of_int_le_iff of_int_numeral of_int_power)
  moreover have "y \<le> of_int c" unfolding c_def by simp
  ultimately have "y \<le> 2 ^ bitlen n" by linarith
  then have "1 \<le> x * 2 ^ bitlen n" using assms by (simp add: y_def field_simps)
  then have "1 / 2 ^ bitlen n \<le> x" by (simp add: field_simps)
  then have l: "2 powi (ilog2 x) \<le> x" by (simp add: il power_int_minus field_simps)
  from l u show ?thesis by simp
qed

lemma ilog2_eqI:
  assumes "0 < x" "2 powi k \<le> x" "x < 2 powi (k + 1)"
  shows "ilog2 x = k"
proof -
  from ilog2_bounds [OF assms(1)]
  have l: "2 powi (ilog2 x) \<le> x" and u: "x < 2 powi (ilog2 x + 1)" by auto
  have "(2::rat) powi k < 2 powi (ilog2 x + 1)" using assms(2) u by (rule le_less_trans)
  then have a: "k < ilog2 x + 1"
    by (metis not_less power_int_increasing one_le_numeral)
  have "(2::rat) powi (ilog2 x) < 2 powi (k + 1)" using l assms(3) by (rule le_less_trans)
  then have b: "ilog2 x < k + 1"
    by (metis not_less power_int_increasing one_le_numeral)
  from a b show ?thesis by simp
qed

lemma rne_minus: "rne p (- x) = - rne p x"
  by (simp add: rne_def Let_def sgn_minus)

lemma rne_error:
  assumes "0 < x"
  shows "\<bar>rne p x - x\<bar> \<le> 2 powi (ilog2 x - int p + 1) / 2"
proof -
  define e where "e = ilog2 x - int p + 1"
  define s where "s = x / (2 powi e)"
  define m where "m = \<lfloor>s\<rfloor>"
  define f where "f = s - of_int m"
  define m' where "m' = (if f < 1 / 2 then m else if 1 / 2 < f then m + 1
                         else if even m then m else m + 1)"
  have pe: "(0::rat) < 2 powi e" by simp
  have r: "rne p x = of_int m' * (2 powi e)"
    using assms by (simp add: rne_def Let_def m'_def f_def m_def s_def e_def)
  have xs: "x = s * (2 powi e)" using pe by (simp add: s_def)
  have f0: "0 \<le> f" and f1: "f < 1" unfolding f_def m_def by linarith+
  have "\<bar>of_int m' - s\<bar> \<le> 1 / 2"
    using f0 f1 unfolding m'_def by (auto simp: f_def abs_if)
  then have "\<bar>of_int m' - s\<bar> * (2 powi e) \<le> 1 / 2 * (2 powi e)"
    using pe by (intro mult_right_mono) auto
  moreover have "rne p x - x = (of_int m' - s) * (2 powi e)"
    by (subst xs) (simp add: r algebra_simps)
  ultimately show ?thesis using pe
    by (simp add: abs_mult e_def)
qed

lemma rne_rel_error:
  assumes "0 < x"
  shows "\<bar>rne p x - x\<bar> \<le> x / 2 ^ p"
proof -
  from ilog2_bounds [OF assms] have l: "2 powi (ilog2 x) \<le> x" by simp
  have "(2::rat) powi (ilog2 x - int p + 1) / 2 = 2 powi (ilog2 x) / 2 ^ p"
    by (simp add: power_int_diff power_int_add)
  also have "\<dots> \<le> x / 2 ^ p" using l by (simp add: divide_right_mono)
  finally show ?thesis using rne_error [OF assms, of p] by linarith
qed

lemma rne_pos:
  "0 < x \<Longrightarrow> rne p x =
     (let e = ilog2 x - int p + 1; s = x / (2 powi e); m = \<lfloor>s\<rfloor>; f = s - of_int m
      in of_int (if f < 1 / 2 then m else if 1 / 2 < f then m + 1
                 else if even m then m else m + 1) * (2 powi e))"
  by (simp add: rne_def Let_def)

lemma rne_dyadic: "rne p (of_nat n / 2 ^ q) = of_nat (round_nat p n) / 2 ^ q"
proof (cases "n = 0")
  case True
  then show ?thesis by (simp add: rne_def round_nat_def)
next
  case False
  then have pos: "0 < n" by simp
  define x :: rat where "x = of_nat n / 2 ^ q"
  have xpos: "0 < x" using pos by (simp add: x_def)
  define L where "L = bitlen n"
  from bitlen_bounds [OF pos] have lo: "2 ^ (L - 1) \<le> n" and hi: "n < 2 ^ L"
    by (auto simp: L_def)
  have Lpos: "0 < L" using pos by (simp add: L_def bitlen_pos)
  have lo': "(2::rat) ^ (L - 1) \<le> of_nat n" using lo
    by (metis of_nat_le_iff of_nat_numeral of_nat_power)
  have hi': "(of_nat n :: rat) < 2 ^ L" using hi
    by (metis of_nat_less_iff of_nat_numeral of_nat_power)
  have il: "ilog2 x = int L - 1 - int q"
  proof (rule ilog2_eqI [OF xpos])
    have "int L - 1 - int q = int (L - 1) - int q" using Lpos by simp
    moreover have "(2::rat) powi (int (L - 1) - int q) = 2 powi int (L - 1) / 2 powi int q"
      by (rule power_int_diff) simp
    ultimately have "(2::rat) powi (int L - 1 - int q) = 2 ^ (L - 1) / 2 ^ q"
      by (simp only: power_int_of_nat)
    then show "2 powi (int L - 1 - int q) \<le> x"
      using lo' by (simp add: x_def divide_right_mono)
    have "(2::rat) powi (int L - 1 - int q + 1) = 2 ^ L / 2 ^ q"
      by (simp add: power_int_diff)
    then show "x < 2 powi (int L - 1 - int q + 1)"
      using hi' by (simp add: x_def divide_strict_right_mono)
  qed
  show ?thesis
  proof (cases "p \<le> L")
    case True
    define k where "k = L - p"
    have e: "ilog2 x - int p + 1 = int k - int q" using True by (simp add: il k_def)
    have s: "x / (2 powi (int k - int q)) = of_nat n / of_nat (2 ^ k)"
      by (simp add: x_def power_int_diff)
    have m: "\<lfloor>(of_nat n :: rat) / of_nat (2 ^ k)\<rfloor> = int (n div 2 ^ k)"
      by (rule floor_divide_of_nat_eq)
    have "n = (n div 2 ^ k) * 2 ^ k + n mod 2 ^ k" by (rule div_mult_mod_eq [symmetric])
    then have "(of_nat n :: rat) = of_nat ((n div 2 ^ k) * 2 ^ k + n mod 2 ^ k)" by simp
    then have "(of_nat n :: rat) = of_nat (n div 2 ^ k) * 2 ^ k + of_nat (n mod 2 ^ k)"
      by (simp only: of_nat_add of_nat_mult of_nat_power of_nat_numeral)
    then have f: "(of_nat n :: rat) / of_nat (2 ^ k) - of_int (int (n div 2 ^ k))
        = of_nat (n mod 2 ^ k) / 2 ^ k"
      by (simp add: field_simps)
    have c1: "(of_nat (n mod 2 ^ k) / 2 ^ k < (1::rat) / 2) = (2 * (n mod 2 ^ k) < 2 ^ k)"
    proof -
      have "(of_nat (n mod 2 ^ k) / 2 ^ k < (1::rat) / 2)
          = ((of_nat (2 * (n mod 2 ^ k)) :: rat) < of_nat (2 ^ k))"
        by (simp add: field_simps)
      also have "\<dots> = (2 * (n mod 2 ^ k) < 2 ^ k)" by (rule of_nat_less_iff)
      finally show ?thesis .
    qed
    have c2: "((1::rat) / 2 < of_nat (n mod 2 ^ k) / 2 ^ k) = (2 ^ k < 2 * (n mod 2 ^ k))"
    proof -
      have "((1::rat) / 2 < of_nat (n mod 2 ^ k) / 2 ^ k)
          = ((of_nat (2 ^ k) :: rat) < of_nat (2 * (n mod 2 ^ k)))"
        by (simp add: field_simps)
      also have "\<dots> = (2 ^ k < 2 * (n mod 2 ^ k))" by (rule of_nat_less_iff)
      finally show ?thesis .
    qed
    have r: "rne p x = of_int (if 2 * (n mod 2 ^ k) < 2 ^ k then int (n div 2 ^ k)
                        else if 2 ^ k < 2 * (n mod 2 ^ k) then int (n div 2 ^ k) + 1
                        else if even (n div 2 ^ k) then int (n div 2 ^ k) else int (n div 2 ^ k) + 1)
                  * (2 powi (int k - int q))"
      unfolding rne_pos [OF xpos] Let_def e s m f c1 c2 by simp
    have "round_nat p n = (if 2 * (n mod 2 ^ k) < 2 ^ k then n div 2 ^ k
                        else if 2 ^ k < 2 * (n mod 2 ^ k) then n div 2 ^ k + 1
                        else if even (n div 2 ^ k) then n div 2 ^ k else n div 2 ^ k + 1) * 2 ^ k"
      by (simp add: round_nat_def Let_def k_def L_def)
    then show ?thesis unfolding x_def [symmetric] r
      by (simp add: power_int_diff)
  next
    case False
    define j where "j = p - L"
    have jp: "p = L + j" using False by (simp add: j_def)
    have e: "ilog2 x - int p + 1 = - int (j + q)" by (simp add: il jp)
    have s: "x / (2 powi (- int (j + q))) = of_int (int (n * 2 ^ j))"
      unfolding power_int_minus power_int_of_nat power_add x_def by (simp add: field_simps)
    have r: "rne p x = of_int (int (n * 2 ^ j)) * (2 powi (- int (j + q)))"
      unfolding rne_pos [OF xpos] Let_def e s by simp
    have "bitlen n - p = 0" using False by (simp add: L_def)
    then have "round_nat p n = n" by (simp add: round_nat_def Let_def)
    moreover have pw: "(2::rat) powi (- int (j + q)) = 1 / (2 ^ j * 2 ^ q)"
      unfolding power_int_minus power_int_of_nat power_add by (simp add: field_simps)
    ultimately show ?thesis unfolding x_def [symmetric] r pw
      by simp
  qed
qed

lemma bitlen_Suc_0 [simp]: "bitlen (Suc 0) = 1"
  by (simp add: bitlen_pos)

lemma bitlen_1 [simp]: "bitlen 1 = 1"
  by (simp add: bitlen_pos)

lemma bitlen_numeral [simp]:
  "bitlen (numeral Num.One) = 1"
  "bitlen (numeral (Num.Bit0 n)) = bitlen (numeral n) + 1"
  "bitlen (numeral (Num.Bit1 n)) = bitlen (numeral n) + 1"
proof -
  show "bitlen (numeral Num.One) = 1" by (simp add: bitlen_pos)
  have "numeral (Num.Bit0 n) div (2::nat) = numeral n" by simp
  then show "bitlen (numeral (Num.Bit0 n)) = bitlen (numeral n) + 1"
    by (simp add: bitlen_pos [of "numeral (Num.Bit0 n)"])
  have "numeral (Num.Bit1 n) div (2::nat) = numeral n" by simp
  then show "bitlen (numeral (Num.Bit1 n)) = bitlen (numeral n) + 1"
    by (simp add: bitlen_pos [of "numeral (Num.Bit1 n)"])
qed

lemma rne_lower: "0 < x \<Longrightarrow> x - x / 2 ^ p \<le> rne p x"
  using rne_rel_error [of x p] by linarith

lemma rne_upper: "0 < x \<Longrightarrow> rne p x \<le> x + x / 2 ^ p"
  using rne_rel_error [of x p] by linarith

lemma rne_nonneg: "0 \<le> x \<Longrightarrow> 0 \<le> rne p x"
proof (cases "x = 0")
  case True
  then show ?thesis by (simp add: rne_def)
next
  case False
  assume "0 \<le> x"
  with False have pos: "0 < x" by simp
  have "(1::rat) \<le> 2 ^ p" by simp
  then have "x / 2 ^ p \<le> x / 1" using pos by (intro divide_left_mono) auto
  with rne_lower [OF pos, of p] show ?thesis by simp
qed

lemma rne_nonpos: "x \<le> 0 \<Longrightarrow> rne p x \<le> 0"
  using rne_nonneg [of "- x" p] by (simp add: rne_minus)

lemma wrap32_id: "0 \<le> n \<Longrightarrow> n < 2 ^ 31 \<Longrightarrow> wrap32 n = n"
  by (simp add: wrap32_def Let_def)

section \<open>The threshold test of the walk\<close>

lemma round_nat_near:
  "2 * round_nat p n \<le> 2 * n + 2 ^ (bitlen n - p) \<and> 2 * n \<le> 2 * round_nat p n + 2 ^ (bitlen n - p)"
proof -
  define k where "k = bitlen n - p"
  define m where "m = n div 2 ^ k"
  define r where "r = n mod 2 ^ k"
  have n: "n = m * 2 ^ k + r" unfolding m_def r_def by (rule div_mult_mod_eq [symmetric])
  have r: "r < 2 ^ k" unfolding r_def by simp
  have R: "round_nat p n = (if 2 * r < 2 ^ k then m else if 2 ^ k < 2 * r then m + 1
                            else if even m then m else m + 1) * 2 ^ k"
    by (simp add: round_nat_def Let_def k_def m_def r_def)
  show ?thesis unfolding k_def [symmetric] R using n r by (auto simp: algebra_simps)
qed

lemma round_nat_exact:
  assumes "t * 2 ^ (bitlen n - p) \<le> n" "2 * (n - t * 2 ^ (bitlen n - p)) < 2 ^ (bitlen n - p)"
  shows "round_nat p n = t * 2 ^ (bitlen n - p)"
proof -
  define k where "k = bitlen n - p"
  define r where "r = n - t * 2 ^ k"
  have n: "n = t * 2 ^ k + r" using assms(1) by (simp add: r_def k_def)
  have r: "2 * r < 2 ^ k" using assms(2) by (simp add: r_def k_def)
  then have rl: "r < 2 ^ k" by simp
  have d: "n div 2 ^ k = t" unfolding n using rl by simp
  have m: "n mod 2 ^ k = r" unfolding n using rl by simp
  show ?thesis unfolding round_nat_def Let_def k_def [symmetric] d m using r by simp
qed

lemma round_nat_small: "n < 2 ^ p \<Longrightarrow> round_nat p n = n"
proof (cases "n = 0")
  case True
  then show ?thesis by (simp add: round_nat_def)
next
  case False
  assume a: "n < 2 ^ p"
  from False have pos: "0 < n" by simp
  from bitlen_bounds [OF pos] have "2 ^ (bitlen n - 1) \<le> n" by simp
  then have "(2::nat) ^ (bitlen n - 1) < 2 ^ p" using a by (rule le_less_trans)
  then have "bitlen n - 1 < p" by (rule power_less_imp_less_exp [of "2::nat", rotated]) simp
  then have "bitlen n - p = 0" by simp
  then show ?thesis by (simp add: round_nat_def)
qed

lemma threshold_eq: "k_brightness_heuristic_threshold = 5944751508129055 / 2 ^ 53"
  by code_simp

lemma round_nat_threshold:
  assumes "0 < n" "n < 2 ^ 31"
  shows "(sm * 2 ^ 53 < int (round_nat 53 (5944751508129055 * n))) = (100 * sm < 66 * int n)"
proof -
  define N where "N = 5944751508129055 * n"
  define k where "k = bitlen N - 53"
  define P :: nat where "P = 2 ^ k"
  define R where "R = round_nat 53 N"
  have Npos: "0 < N" using assms(1) by (simp add: N_def)
  from bitlen_bounds [OF Npos] have lo: "2 ^ (bitlen N - 1) \<le> N" and hi: "N < 2 ^ bitlen N"
    by auto
  have "(2::nat) ^ 52 \<le> N" using assms(1) by (simp add: N_def)
  then have "(2::nat) ^ 52 < 2 ^ bitlen N" using hi by (rule le_less_trans)
  then have "52 < bitlen N" by (rule power_less_imp_less_exp [of "2::nat", rotated]) simp
  then have L: "bitlen N = k + 53" by (simp add: k_def)
  have lo': "P * 2 ^ 52 \<le> N" using lo unfolding L P_def by (simp add: power_add)
  have hi': "N < P * 2 ^ 53" using hi unfolding L P_def by (simp add: power_add)
  from round_nat_near [of 53 N]
  have near: "2 * R \<le> 2 * N + P" "2 * N \<le> 2 * R + P" by (simp_all add: R_def P_def k_def)
  have "P * 4503599627370496 \<le> 5944751508129055 * n" using lo' by (simp add: N_def)
  then have P2: "P < 2 * n" using assms(1) by linarith
  show ?thesis
  proof (cases "100 * sm < 66 * int n")
    case True
    have "sm * 2 ^ 53 < int R" using True near(2) P2 assms(2) unfolding N_def by simp
    with True show ?thesis by (simp add: R_def N_def)
  next
    case False
    show ?thesis
    proof (cases "66 * int n < 100 * sm")
      case True
      have "int R \<le> sm * 2 ^ 53" using True near(1) P2 assms(2) unfolding N_def by simp
      with False show ?thesis by (simp add: R_def N_def)
    next
      case F2: False
      with False have eq: "100 * sm = 66 * int n" by simp
      then have "0 \<le> sm" by simp
      then obtain s where s: "sm = int s" by (metis nat_0_le)
      have eqn: "100 * s = 66 * n" using eq unfolding s by (simp only: of_nat_eq_iff [symmetric] of_nat_mult of_nat_numeral)
      have "P < 2 ^ 32" using P2 assms(2) by simp
      then have "k < 32" unfolding P_def by (rule power_less_imp_less_exp [of "2::nat", rotated]) simp
      then have k53: "k \<le> 53" by simp
      define t where "t = s * 2 ^ (53 - k)"
      have tk: "t * 2 ^ k = s * 2 ^ 53"
        unfolding t_def using k53 by (simp add: power_add [symmetric])
      have "s * 2 ^ 53 \<le> N" unfolding N_def using eqn by simp
      then have a1: "t * 2 ^ (bitlen N - 53) \<le> N" using tk by (simp add: k_def)
      have "2 * (N - s * 2 ^ 53) < P" using hi' eqn unfolding N_def by simp
      then have a2: "2 * (N - t * 2 ^ (bitlen N - 53)) < 2 ^ (bitlen N - 53)"
        using tk by (simp add: k_def P_def)
      from round_nat_exact [OF a1 a2] have "R = s * 2 ^ 53" using tk by (simp add: R_def k_def)
      then have "int R = sm * 2 ^ 53" unfolding s by simp
      with False show ?thesis by (simp add: R_def N_def)
    qed
  qed
qed

lemma threshold_test:
  assumes "0 < sz" "sz < 2 ^ 31"
  shows "(of_int sm < to_double (k_brightness_heuristic_threshold * of_int sz))
         = (100 * sm < 66 * sz)"
proof -
  define n where "n = nat sz"
  have sz: "sz = int n" using assms(1) by (simp add: n_def)
  have n: "0 < n" "n < 2 ^ 31" using assms by (simp_all add: n_def)
  have "k_brightness_heuristic_threshold * of_int sz = (of_nat (5944751508129055 * n) :: rat) / 2 ^ 53"
    unfolding threshold_eq sz by simp
  then have "to_double (k_brightness_heuristic_threshold * of_int sz)
      = of_nat (round_nat 53 (5944751508129055 * n)) / 2 ^ 53"
    by (simp only: to_double_def rne_dyadic)
  then have "(of_int sm < to_double (k_brightness_heuristic_threshold * of_int sz))
      = ((of_int sm :: rat) * 2 ^ 53 < of_nat (round_nat 53 (5944751508129055 * n)))"
    by (simp only: pos_less_divide_eq zero_less_power zero_less_numeral)
  also have "\<dots> = ((of_int (sm * 2 ^ 53) :: rat) < of_int (int (round_nat 53 (5944751508129055 * n))))"
    by simp
  also have "\<dots> = (sm * 2 ^ 53 < int (round_nat 53 (5944751508129055 * n)))"
    by (rule of_int_less_iff)
  also have "\<dots> = (100 * sm < 66 * sz)" unfolding sz by (rule round_nat_threshold [OF n])
  finally show ?thesis .
qed

section \<open>The histogram\<close>

lemma length_tally [simp]: "length (tally b counts) = length counts"
  by (simp add: tally_def)

lemma length_fold_tally [simp]: "length (fold tally xs counts) = length counts"
  by (induction xs arbitrary: counts) simp_all

lemma unat_byte_less: "unat (b :: byte) < 256"
  using unsigned_less [of b, where 'a = nat] by simp

lemma count_loop_stop: "\<not> i < sz \<Longrightarrow> count_loop d sz i counts = Inr counts"
  by (subst count_loop.simps) simp

lemma count_loop_step:
  assumes "i < sz" "0 \<le> i" "sz \<le> int (length d)" "length counts = 256"
  shows "count_loop d sz i counts = count_loop d sz (i + 1) (tally (d ! nat i) counts)"
proof -
  define b where "b = d ! nat i"
  have r1: "vec_at d i = Inr b" using assms(1,2,3) by (simp add: vec_at_def b_def)
  have ub: "uint b < 256" using unsigned_less [of b, where 'a = int] by simp
  have r2: "vec_at counts (uint b) = Inr (counts ! nat (uint b))"
    using ub assms(4) by (simp add: vec_at_def)
  have t: "counts[nat (uint b) := (counts ! nat (uint b) + 1) mod 2 ^ 64] = tally b counts"
    by (simp add: tally_def)
  show ?thesis
    unfolding b_def [symmetric]
    by (subst count_loop.simps) (simp only: assms(1) r1 r2 t if_True sum.case)
qed

lemma count_loop_fold:
  "0 \<le> i \<Longrightarrow> sz \<le> int (length d) \<Longrightarrow> length counts = 256 \<Longrightarrow>
     count_loop d sz i counts = Inr (fold tally (take (nat (sz - i)) (drop (nat i) d)) counts)"
proof (induction "nat (sz - i)" arbitrary: i counts)
  case 0
  then have "\<not> i < sz" by simp
  then show ?case using 0(1) by (simp add: count_loop_stop)
next
  case (Suc n)
  then have lt: "i < sz" by simp
  define b where "b = d ! nat i"
  have il: "nat i < length d" using lt Suc.prems by simp
  have n1: "n = nat (sz - (i + 1))" using Suc(2) by simp
  have ih: "count_loop d sz (i + 1) (tally b counts)
      = Inr (fold tally (take (nat (sz - (i + 1))) (drop (nat (i + 1)) d)) (tally b counts))"
    using Suc.prems by (intro Suc(1) [OF n1]) simp_all
  have n2: "nat (i + 1) = Suc (nat i)" using Suc.prems(1) by simp
  have dr: "drop (nat i) d = b # drop (Suc (nat i)) d"
    unfolding b_def using il by (rule Cons_nth_drop_Suc [symmetric])
  have "take (nat (sz - i)) (drop (nat i) d) = b # take n (drop (Suc (nat i)) d)"
    unfolding Suc(2) [symmetric] dr by simp
  then have "fold tally (take (nat (sz - i)) (drop (nat i) d)) counts
      = fold tally (take n (drop (Suc (nat i)) d)) (tally b counts)" by simp
  moreover have "count_loop d sz i counts = count_loop d sz (i + 1) (tally b counts)"
    unfolding b_def using lt Suc.prems by (rule count_loop_step)
  ultimately show ?case unfolding ih n1 [symmetric] n2 by simp
qed

lemma tally_nth:
  assumes "j < length counts" "counts ! j + 1 < 2 ^ 64"
  shows "tally b counts ! j = (if j = unat b then counts ! j + 1 else counts ! j)"
  using assms by (auto simp: tally_def nth_list_update)

lemma byte_index: "j < 256 \<Longrightarrow> (j = unat (b :: byte)) = (b = of_nat j)"
  by (auto simp: word_unat_eq_iff unat_of_nat)

lemma fold_tally_nth:
  "length counts = 256 \<Longrightarrow> \<forall>j<256. counts ! j + length xs < 2 ^ 64 \<Longrightarrow> j < 256 \<Longrightarrow>
     fold tally xs counts ! j = counts ! j + count_list xs (of_nat j)"
proof (induction xs arbitrary: counts)
  case Nil
  then show ?case by simp
next
  case (Cons b xs)
  have st: "tally b counts ! i = (if i = unat b then counts ! i + 1 else counts ! i)" if "i < 256" for i
    using Cons.prems(1,2) that by (intro tally_nth) auto
  have "\<forall>i<256. tally b counts ! i + length xs < 2 ^ 64"
    using Cons.prems(2) st by auto
  from Cons.IH [OF _ this Cons.prems(3)] Cons.prems(1)
  have "fold tally xs (tally b counts) ! j = tally b counts ! j + count_list xs (of_nat j)" by simp
  then show ?case using st [OF Cons.prems(3)] byte_index [OF Cons.prems(3), of b] by auto
qed

lemma sum_list_tally:
  assumes "unat b < length counts" "counts ! unat b + 1 < 2 ^ 64"
  shows "sum_list (tally b counts) = sum_list counts + 1"
proof -
  have "tally b counts = counts[unat b := counts ! unat b + 1]"
    using assms(2) by (simp add: tally_def)
  then show ?thesis using assms(1) by (simp add: sum_list_update)
qed

lemma sum_list_fold_tally:
  "length counts = 256 \<Longrightarrow> sum_list counts + length xs < 2 ^ 64 \<Longrightarrow>
     sum_list (fold tally xs counts) = sum_list counts + length xs"
proof (induction xs arbitrary: counts)
  case Nil
  then show ?case by simp
next
  case (Cons b xs)
  have ub: "unat b < length counts" using unat_byte_less [of b] Cons.prems(1) by simp
  have "counts ! unat b \<le> sum_list counts" using ub by (simp add: member_le_sum_list)
  then have "counts ! unat b + 1 < 2 ^ 64" using Cons.prems(2) by simp
  from sum_list_tally [OF ub this] have s: "sum_list (tally b counts) = sum_list counts + 1" .
  have "sum_list (fold tally xs (tally b counts)) = sum_list (tally b counts) + length xs"
    using Cons.prems by (intro Cons.IH) (simp_all add: s)
  then show ?case by (simp add: s)
qed

lemma sum_list_sort: "sum_list (sort (xs :: nat list)) = sum_list xs"
  by (metis mset_sort sum_mset_sum_list)

section \<open>The walk\<close>

lemma top_sum_0 [simp]: "top_sum counts 0 = 0"
  by (simp add: top_sum_def)

lemma top_sum_Suc:
  assumes "k < length counts"
  shows "top_sum counts (Suc k) = top_sum counts k + counts ! (length counts - 1 - k)"
proof -
  have "take (Suc k) (rev counts) = take k (rev counts) @ [rev counts ! k]"
    using assms by (simp add: take_Suc_conv_app_nth)
  moreover have "rev counts ! k = counts ! (length counts - 1 - k)"
    using assms by (simp add: rev_nth)
  ultimately show ?thesis by (simp add: top_sum_def)
qed

lemma top_sum_le: "top_sum counts k \<le> sum_list counts"
proof -
  have "sum_list (take k (rev counts)) + sum_list (drop k (rev counts)) = sum_list (rev counts)"
    by (metis append_take_drop_id sum_list_append)
  then show ?thesis by (simp add: top_sum_def)
qed

lemma walk_stop:
  "\<not> (offset < 255 \<and> 100 * sm < 66 * sz) \<Longrightarrow> 0 < sz \<Longrightarrow> sz < 2 ^ 31 \<Longrightarrow>
     walk counts sz offset sm = Inr (offset, sm)"
  by (subst walk.simps) (simp only: threshold_test if_False)

lemma walk_step:
  assumes "offset < 255" "100 * sm < 66 * sz" "0 \<le> offset" "length counts = 256"
    and "0 < sz" "sz < 2 ^ 31"
  shows "walk counts sz offset sm
         = walk counts sz (offset + 1) (wrap32 (sm + int (counts ! nat (255 - offset))))"
proof -
  have r: "vec_at counts (255 - offset) = Inr (counts ! nat (255 - offset))"
    using assms(1,3,4) by (simp add: vec_at_def)
  show ?thesis
    by (subst walk.simps) (simp only: threshold_test [OF assms(5,6)] assms(1,2) r if_True sum.case simp_thms)
qed

lemma walk_char:
  assumes "length counts = 256" "0 < sz" "sz < 2 ^ 31" "int (sum_list counts) \<le> sz"
  shows "offset \<le> 255 \<Longrightarrow>
     \<exists>k. walk counts sz (int offset) (int (top_sum counts offset)) = Inr (int k, int (top_sum counts k))
        \<and> offset \<le> k \<and> k \<le> 255
        \<and> (k = 255 \<or> reached sz (top_sum counts k))
        \<and> (\<forall>j. offset \<le> j \<and> j < k \<longrightarrow> \<not> reached sz (top_sum counts j))"
proof (induction "255 - offset" arbitrary: offset)
  case 0
  then have o: "offset = 255" by simp
  have "walk counts sz (int offset) (int (top_sum counts offset))
      = Inr (int offset, int (top_sum counts offset))"
    using assms(2,3) o by (intro walk_stop) simp_all
  then show ?case using o by auto
next
  case (Suc n)
  then have lt: "offset < 255" by simp
  show ?case
  proof (cases "reached sz (top_sum counts offset)")
    case True
    then have "\<not> (int offset < 255 \<and> 100 * int (top_sum counts offset) < 66 * sz)"
      by (simp add: reached_def)
    then have "walk counts sz (int offset) (int (top_sum counts offset))
        = Inr (int offset, int (top_sum counts offset))"
      using assms(2,3) by (rule walk_stop)
    then show ?thesis using True lt by auto
  next
    case False
    then have c: "100 * int (top_sum counts offset) < 66 * sz" by (simp add: reached_def)
    have i: "nat (255 - int offset) = length counts - 1 - offset" using lt assms(1) by simp
    have ts: "top_sum counts (Suc offset) = top_sum counts offset + counts ! nat (255 - int offset)"
      unfolding i using lt assms(1) by (intro top_sum_Suc) simp
    have "int (top_sum counts (Suc offset)) \<le> sz"
      using top_sum_le [of counts "Suc offset"] assms(4) by linarith
    then have "wrap32 (int (top_sum counts (Suc offset))) = int (top_sum counts (Suc offset))"
      using assms(3) by (intro wrap32_id) simp_all
    then have w: "wrap32 (int (top_sum counts offset) + int (counts ! nat (255 - int offset)))
        = int (top_sum counts (Suc offset))"
      unfolding ts by simp
    have st: "walk counts sz (int offset) (int (top_sum counts offset))
        = walk counts sz (int (Suc offset)) (int (top_sum counts (Suc offset)))"
      using walk_step [of "int offset" "int (top_sum counts offset)" sz counts] lt c assms(1,2,3)
      by (simp add: w add.commute)
    have "n = 255 - Suc offset" using Suc(2) by simp
    from Suc(1) [OF this] lt
    obtain k where k: "walk counts sz (int (Suc offset)) (int (top_sum counts (Suc offset)))
          = Inr (int k, int (top_sum counts k))"
        "Suc offset \<le> k" "k \<le> 255" "k = 255 \<or> reached sz (top_sum counts k)"
        "\<forall>j. Suc offset \<le> j \<and> j < k \<longrightarrow> \<not> reached sz (top_sum counts j)"
      by auto
    have "\<forall>j. offset \<le> j \<and> j < k \<longrightarrow> \<not> reached sz (top_sum counts j)"
    proof (intro allI impI)
      fix j assume "offset \<le> j \<and> j < k"
      then have "j = offset \<or> (Suc offset \<le> j \<and> j < k)" by auto
      then show "\<not> reached sz (top_sum counts j)" using False k(5) by auto
    qed
    then show ?thesis using st k(1,2,3,4) by (intro exI [of _ k]) simp
  qed
qed

lemma sum_list_lower: "\<forall>x\<in>set xs. a \<le> x \<Longrightarrow> length xs * a \<le> sum_list (xs :: nat list)"
  by (induction xs) auto

lemma least_bucket:
  assumes "sorted (counts :: nat list)" "length counts = 256"
  shows "256 * counts ! 0 \<le> sum_list counts"
proof -
  have "\<forall>x\<in>set counts. counts ! 0 \<le> x"
  proof
    fix x assume "x \<in> set counts"
    then obtain i where "i < length counts" "x = counts ! i" by (metis in_set_conv_nth)
    then show "counts ! 0 \<le> x" using assms(1) by (simp add: sorted_nth_mono)
  qed
  from sum_list_lower [OF this] show ?thesis using assms(2) by simp
qed

lemma top_sum_255:
  assumes "sorted counts" "length counts = 256" "0 \<le> sz" "int (sum_list counts) = sz"
  shows "reached sz (top_sum counts 255)"
proof -
  have "top_sum counts 256 = top_sum counts 255 + counts ! 0"
    using top_sum_Suc [of 255 counts] assms(2) by simp
  moreover have "top_sum counts 256 = sum_list counts"
    using assms(2) by (simp add: top_sum_def)
  ultimately have "sum_list counts = top_sum counts 255 + counts ! 0" by simp
  with least_bucket [OF assms(1,2)] assms(3,4) show ?thesis
    unfolding reached_def by linarith
qed

section \<open>The suggested brightness\<close>

lemma suggest_small: "length d < 100 \<Longrightarrow> suggestBrightness d = Inr 64"
proof -
  assume a: "length d < 100"
  then have "wrap32 (int (length d)) = int (length d)" by (intro wrap32_id) auto
  with a show ?thesis
    by (simp add: suggestBrightness_def Let_def k_minimum_brightness_def k_maximum_brightness_def)
qed

lemma wrap32_large:
  assumes "0 \<le> n" "100 \<le> wrap32 n"
  shows "wrap32 n \<le> n \<and> wrap32 n < 2 ^ 31"
proof -
  have m: "0 \<le> n mod 2 ^ 32" "n mod 2 ^ 32 < 2 ^ 32" by simp_all
  have le: "n mod 2 ^ 32 \<le> n" using assms(1) by (rule zmod_le_nonneg_dividend)
  show ?thesis using assms(2) m le by (auto simp: wrap32_def Let_def split: if_splits)
qed

lemma scale_trunc:
  assumes "k \<le> 255"
  shows "trunc_int (to_double (of_int (int k) / k_brightness_heuristic_scaling)) = int (2 * k div 5)"
proof (cases "k = 0")
  case True
  then show ?thesis by (simp add: trunc_int_def to_double_def rne_def)
next
  case False
  define x :: rat where "x = of_nat (2 * k) / 5"
  define q where "q = 2 * k div 5"
  define r where "r = 2 * k mod 5"
  have xe: "of_int (int k) / k_brightness_heuristic_scaling = x"
    by (simp add: x_def k_brightness_heuristic_scaling_def)
  have xpos: "0 < x" using False by (simp add: x_def)
  have "2 * k = q * 5 + r" unfolding q_def r_def by (rule div_mult_mod_eq [symmetric])
  then have "(of_nat (2 * k) :: rat) = of_nat (q * 5 + r)" by simp
  then have xq: "x = of_nat q + of_nat r / 5" unfolding x_def by (simp add: field_simps)
  have r5: "r < 5" unfolding r_def by simp
  have q102: "q \<le> 102" using assms unfolding q_def by simp
  have nn: "0 \<le> to_double x" unfolding to_double_def using xpos by (intro rne_nonneg) simp
  have "\<lfloor>to_double x\<rfloor> = int q"
  proof (cases "r = 0")
    case True
    then have "x = of_nat q / 2 ^ 0" using xq by simp
    moreover have "q < 2 ^ 53" using q102 by simp
    ultimately have "to_double x = of_nat q"
      unfolding to_double_def by (simp only: rne_dyadic round_nat_small) simp
    then show ?thesis by simp
  next
    case False
    then have r1: "1 \<le> r" by simp
    have lo: "of_nat q + 1 / 5 \<le> x" using r1 unfolding xq
      by (simp add: field_simps)
    have hi: "x \<le> of_nat q + 4 / 5"
    proof -
      have "r \<le> 4" using r5 by simp
      then have "(of_nat r :: rat) \<le> of_nat 4" by (simp only: of_nat_le_iff)
      then show ?thesis unfolding xq by simp
    qed
    have qr: "(of_nat q :: rat) \<le> 102" using q102 by (metis of_nat_le_iff of_nat_numeral)
    have e: "\<bar>to_double x - x\<bar> \<le> x / 2 ^ 53" unfolding to_double_def using xpos by (rule rne_rel_error)
    have "x / 2 ^ 53 < 1 / 10" using hi qr by (simp add: field_simps)
    with e lo hi have "of_nat q \<le> to_double x \<and> to_double x < of_nat q + 1"
      by linarith
    then have "of_int (int q) \<le> to_double x \<and> to_double x < of_int (int q) + 1"
      by simp
    then show ?thesis by (simp add: floor_unique)
  qed
  then show ?thesis unfolding xe trunc_int_def using nn by (simp add: q_def)
qed

lemma suggest_large:
  assumes "100 \<le> sz" "sz = wrap32 (int (length d))" "H = fold tally (take (nat sz) d) (replicate 256 0)"
  shows "\<exists>k. suggestBrightness d = Inr (max 38 (66 - int (2 * k div 5)))
          \<and> count_loop d sz 0 (replicate 256 0) = Inr H
          \<and> walk (sort H) sz 0 0 = Inr (int k, int (top_sum (sort H) k))
          \<and> k \<le> 255
          \<and> reached sz (top_sum (sort H) k)
          \<and> (\<forall>j<k. \<not> reached sz (top_sum (sort H) j))"
proof -
  from wrap32_large [of "int (length d)"] assms(1,2)
  have szl: "sz \<le> int (length d)" and sz31: "sz < 2 ^ 31" by simp_all
  have szpos: "0 < sz" using assms(1) by simp
  have tk: "length (take (nat sz) d) = nat sz" using szl by simp
  have cl: "count_loop d sz 0 (replicate 256 0) = Inr H"
    unfolding assms(3) using szl by (subst count_loop_fold) simp_all
  have len: "length (sort H) = 256" by (simp add: assms(3))
  have "sum_list H = sum_list (replicate 256 (0::nat)) + length (take (nat sz) d)"
    unfolding assms(3) using sz31 by (intro sum_list_fold_tally) (simp_all add: tk sum_list_replicate)
  then have "sum_list H = nat sz" unfolding tk by (simp add: sum_list_replicate)
  then have sH: "int (sum_list H) = sz" using szpos by simp
  then have sS: "int (sum_list (sort H)) = sz" by (simp add: sum_list_sort)
  from walk_char [OF len szpos sz31, of 0] sS
  obtain k where k: "walk (sort H) sz 0 0 = Inr (int k, int (top_sum (sort H) k))"
      "k \<le> 255" "k = 255 \<or> reached sz (top_sum (sort H) k)"
      "\<forall>j. 0 \<le> j \<and> j < k \<longrightarrow> \<not> reached sz (top_sum (sort H) j)"
    by auto
  have r: "reached sz (top_sum (sort H) k)"
    using k(3) top_sum_255 [OF sorted_sort len _ sS] szpos by auto
  have "suggestBrightness d = Inr (max 38 (66 - int (2 * k div 5)))"
    unfolding suggestBrightness_def Let_def assms(2) [symmetric]
    using assms(1) cl k(1) scale_trunc [OF k(2)]
    by (simp add: k_brightness_heuristic_min_def k_brightness_heuristic_max_def)
  then show ?thesis using cl k r by auto
qed

text \<open>
  C2. For every buffer whose size is less than 100, \<open>suggestBrightness\<close> returns 64, the
  midpoint \<open>(25 + 103) / 2\<close> of the slider range, whatever the buffer holds.
\<close>

theorem suggestBrightness_small:
  "length d < 100 \<Longrightarrow> suggestBrightness d = Inr 64"
  by (rule suggest_small)

theorem suggestBrightness_small_witness:
  "length [0x10, 0x20, 0x30 :: byte] < 100 \<and> suggestBrightness [0x10, 0x20, 0x30] = Inr 64"
  using suggestBrightness_small [of "[0x10, 0x20, 0x30]"] by simp

lemma count_list_replicate [simp]: "count_list (replicate n x) x = n"
  by (induction n) simp_all

lemma histogram_whole:
  assumes "length d < 2 ^ 31" "H = fold tally d (replicate 256 0)"
  shows "H ! unat b = count_list d b"
proof -
  have "\<forall>j<256. replicate 256 (0::nat) ! j + length d < 2 ^ 64" using assms(1) by simp
  from fold_tally_nth [OF _ this unat_byte_less, of b]
  show ?thesis by (simp add: assms(2) unat_byte_less)
qed

lemma largest_bucket:
  assumes "length H = 256" "i < 256"
  shows "H ! i \<le> sort H ! 255"
proof -
  have "H ! i \<in> set (sort H)" using assms by simp
  then obtain j where j: "j < length (sort H)" "sort H ! j = H ! i" by (metis in_set_conv_nth)
  then have "sort H ! j \<le> sort H ! 255" using assms(1) by (intro sorted_nth_mono) simp_all
  then show ?thesis using j(2) by simp
qed

text \<open>
  C1 as stated fails: the guard \<open>size < 100\<close> comes first. A buffer of 50 bytes, all
  \<open>0x41\<close>, is filled to 100% by one value and gets 64, not 66.
\<close>

theorem suggestBrightness_dominant_counterexample:
  "66 * length (replicate 50 (0x41 :: byte)) \<le> 100 * count_list (replicate 50 (0x41 :: byte)) 0x41
   \<and> suggestBrightness (replicate 50 0x41) = Inr 64"
  using suggest_small [of "replicate 50 0x41"] by simp

text \<open>
  C1, amended. For every buffer of at least 100 bytes (and fewer than \<open>2 ^ 31\<close>, so that
  its size is an \<open>int\<close>) in which one byte value fills at least 66% of the bytes,
  \<open>suggestBrightness\<close> returns 66: the largest bucket alone reaches the threshold, the
  walk stops with \<open>offset = 1\<close>, and \<open>1 / 2.5\<close> truncates to 0.
\<close>

theorem suggestBrightness_dominant:
  assumes "100 \<le> length d" "length d < 2 ^ 31" "66 * length d \<le> 100 * count_list d b"
  shows "suggestBrightness d = Inr 66"
proof -
  define sz where "sz = int (length d)"
  define H where "H = fold tally d (replicate 256 0)"
  have w: "sz = wrap32 (int (length d))" unfolding sz_def using assms(2) by (intro wrap32_id [symmetric]) simp_all
  have H': "H = fold tally (take (nat sz) d) (replicate 256 0)" by (simp add: H_def sz_def)
  have sz100: "100 \<le> sz" using assms(1) by (simp add: sz_def)
  from suggest_large [OF sz100 w H']
  obtain k where k: "suggestBrightness d = Inr (max 38 (66 - int (2 * k div 5)))"
      "reached sz (top_sum (sort H) k)" "\<forall>j<k. \<not> reached sz (top_sum (sort H) j)"
    by blast
  have len: "length H = 256" by (simp add: H_def)
  have "count_list d b \<le> sort H ! 255"
    using largest_bucket [OF len unat_byte_less, of b] histogram_whole [OF assms(2) H_def, of b] by simp
  moreover have "top_sum (sort H) 1 = sort H ! 255"
    using top_sum_Suc [of 0 "sort H"] len by simp
  ultimately have r1: "reached sz (top_sum (sort H) 1)"
    using assms(3) unfolding reached_def sz_def by simp
  have r0: "\<not> reached sz (top_sum (sort H) 0)" using sz100 by (simp add: reached_def)
  have "k = 1"
  proof -
    have "k \<noteq> 0" by (metis k(2) r0)
    moreover have "\<not> 1 < k" by (metis k(3) r1)
    ultimately show ?thesis by simp
  qed
  then show ?thesis using k(1) by simp
qed

theorem suggestBrightness_dominant_witness:
  "100 \<le> length (replicate 5000 (0x41 :: byte)) \<and> length (replicate 5000 (0x41 :: byte)) < 2 ^ 31
   \<and> 66 * length (replicate 5000 (0x41 :: byte)) \<le> 100 * count_list (replicate 5000 (0x41 :: byte)) 0x41
   \<and> suggestBrightness (replicate 5000 0x41) = Inr 66"
  using suggestBrightness_dominant [of "replicate 5000 0x41" "0x41"] by simp

text \<open>
  C3. Whenever \<open>suggestBrightness\<close> passes its guard, that is, the size \<open>sz\<close> it reads
  (the buffer's length as an \<open>int\<close>) is at least 100: the counting loop yields the
  histogram of the \<open>sz\<close> bytes it reads; the walk over the sorted histogram takes
  buckets from the largest downward and returns \<open>(offset, sum)\<close>, where \<open>sum\<close> is the sum
  of the \<open>offset\<close> largest buckets; it stops exactly when the running sum reaches
  \<open>0.66 \<times> size\<close>: \<open>sum\<close> has reached it and the sum of no smaller number of buckets
  had. The buckets are never used up: \<open>offset\<close> is between 1 and 255, so the bound on
  \<open>offset\<close> in the loop's guard never decides. \<open>suggestBrightness\<close> returns
  \<open>max(38, 66 - offset / 2.5)\<close> for this \<open>offset\<close>. The comparison the code makes in
  \<open>double\<close> agrees with the exact one (\<open>threshold_test\<close>).
\<close>

theorem walk_stops:
  assumes "sz = wrap32 (int (length d))" "100 \<le> sz"
  shows "\<exists>counts offset sm.
      count_loop d sz 0 (replicate 256 0) = Inr counts
    \<and> (\<forall>b. counts ! unat b = count_list (take (nat sz) d) b)
    \<and> walk (sort counts) sz 0 0 = Inr (int offset, int sm)
    \<and> sm = top_sum (sort counts) offset
    \<and> 1 \<le> offset \<and> offset \<le> 255
    \<and> reached sz sm
    \<and> (\<forall>j<offset. \<not> reached sz (top_sum (sort counts) j))
    \<and> suggestBrightness d = Inr (max 38 (66 - int (2 * offset div 5)))"
proof -
  define H where "H = fold tally (take (nat sz) d) (replicate 256 0)"
  from wrap32_large [of "int (length d)"] assms
  have szl: "sz \<le> int (length d)" and sz31: "sz < 2 ^ 31" by simp_all
  have "length (take (nat sz) d) < 2 ^ 31" using szl sz31 assms(2) by simp
  from histogram_whole [OF this H_def]
  have h: "\<forall>b. H ! unat b = count_list (take (nat sz) d) b" by simp
  from suggest_large [OF assms(2,1) H_def]
  obtain k where k: "suggestBrightness d = Inr (max 38 (66 - int (2 * k div 5)))"
      "count_loop d sz 0 (replicate 256 0) = Inr H"
      "walk (sort H) sz 0 0 = Inr (int k, int (top_sum (sort H) k))" "k \<le> 255"
      "reached sz (top_sum (sort H) k)" "\<forall>j<k. \<not> reached sz (top_sum (sort H) j)"
    by blast
  have "\<not> reached sz (top_sum (sort H) 0)" using assms(2) by (simp add: reached_def)
  then have "k \<noteq> 0" by (metis k(5))
  then have k1: "1 \<le> k" by simp
  show ?thesis
    by (intro exI [of _ H] exI [of _ k] exI [of _ "top_sum (sort H) k"] conjI
        k(2) h k(3) refl k1 k(4) k(5) k(6) k(1))
qed

theorem walk_stops_witness:
  "(100 :: int) = wrap32 (int (length (replicate 66 (0x41 :: byte) @ replicate 34 0x42)))
   \<and> (100 :: int) \<le> 100
   \<and> (\<exists>counts offset sm.
      count_loop (replicate 66 0x41 @ replicate 34 0x42) 100 0 (replicate 256 0) = Inr counts
    \<and> (\<forall>b. counts ! unat b
            = count_list (take (nat 100) (replicate 66 (0x41 :: byte) @ replicate 34 0x42)) b)
    \<and> walk (sort counts) 100 0 0 = Inr (int offset, int sm)
    \<and> sm = top_sum (sort counts) offset
    \<and> 1 \<le> offset \<and> offset \<le> 255
    \<and> reached 100 sm
    \<and> (\<forall>j<offset. \<not> reached 100 (top_sum (sort counts) j))
    \<and> suggestBrightness (replicate 66 0x41 @ replicate 34 0x42)
        = Inr (max 38 (66 - int (2 * offset div 5))))"
proof -
  have h1: "(100 :: int) = wrap32 (int (length (replicate 66 (0x41 :: byte) @ replicate 34 0x42)))"
    by (simp add: wrap32_def)
  have h2: "(100 :: int) \<le> 100" by simp
  show ?thesis
    by (intro conjI h1 h2) (rule walk_stops [OF h1 h2])
qed

section \<open>The intensity\<close>

lemma to_float_int:
  assumes "\<bar>k\<bar> < 2 ^ 24"
  shows "to_float (of_int k) = of_int k"
proof -
  have nat_case: "to_float (of_nat n) = of_nat n" if "n < 2 ^ 24" for n
  proof -
    have "(of_nat n :: rat) = of_nat n / 2 ^ 0" by simp
    then have "to_float (of_nat n) = of_nat (round_nat 24 n) / 2 ^ 0"
      unfolding to_float_def by (metis rne_dyadic)
    then show ?thesis using round_nat_small [OF that] by simp
  qed
  show ?thesis
  proof (cases "0 \<le> k")
    case True
    then have "nat k < 2 ^ 24" using assms by simp
    from nat_case [OF this] show ?thesis using True by simp
  next
    case False
    then have "nat (- k) < 2 ^ 24" using assms by simp
    from nat_case [OF this] have "to_float (of_int (- k)) = of_int (- k)" using False by simp
    then have "- to_float (of_int k) = - of_int k"
      unfolding to_float_def by (simp add: rne_minus)
    then show ?thesis by simp
  qed
qed

lemma cube_exact:
  assumes "\<bar>v\<bar> \<le> 255"
  shows "fmul (fmul (to_float (of_int v)) (to_float (of_int v))) (to_float (of_int v)) = of_int (v ^ 3)"
proof -
  have a: "\<bar>v\<bar> < 2 ^ 24" using assms by simp
  have "\<bar>v\<bar> ^ 2 \<le> 255 ^ 2" using assms by (intro power_mono) simp_all
  then have b: "\<bar>v * v\<bar> < 2 ^ 24" by (simp add: power2_eq_square abs_mult)
  have "\<bar>v\<bar> ^ 3 \<le> 255 ^ 3" using assms by (intro power_mono) simp_all
  then have c: "\<bar>v * v * v\<bar> < 2 ^ 24" by (simp add: power3_eq_cube abs_mult)
  have "fmul (to_float (of_int v)) (to_float (of_int v)) = of_int (v * v)"
    unfolding fmul_def to_float_int [OF a] using to_float_int [OF b] by simp
  then have "fmul (fmul (to_float (of_int v)) (to_float (of_int v))) (to_float (of_int v))
      = of_int (v * v * v)"
    unfolding fmul_def to_float_int [OF a] using to_float_int [OF c] by simp
  then show ?thesis by (simp add: power3_eq_cube)
qed

text \<open>
  C6. For a brightness with \<open>|value| \<le> 255\<close> (the slider ends at 103; the cube is then
  a \<open>float\<close> as it stands) and a non-empty buffer, \<open>setBrightness\<close> stores the value and
  sets \<open>c_brightness\<close> to \<open>value\<^sup>3 / dataSize\<close> computed in \<open>float\<close>: the exact cube
  divided by the data size as a \<open>float\<close>, rounded to the nearest \<open>float\<close>. For 64 and
  1000 bytes the result is the \<open>float\<close> nearest to 262.144, which is \<open>8589935 / 32768\<close>.
\<close>

theorem setBrightness_intensity:
  assumes "\<bar>v\<bar> \<le> 255" "data w \<noteq> []"
  shows "setBrightness v w
         = Inr (w\<lparr>brightness := v,
                   c_brightness := to_float (of_int (v ^ 3) / to_float (of_nat (length (data w))))\<rparr>)"
  unfolding setBrightness_def Let_def cube_exact [OF assms(1)] using assms(2) by simp

lemma intensity_64_1000: "to_float (262144 / 1000) = 8589935 / 32768"
  by code_simp

theorem setBrightness_intensity_witness:
  "\<bar>64 :: int\<bar> \<le> 255 \<and> data (initial (replicate 1000 0)) \<noteq> []
   \<and> setBrightness 64 (initial (replicate 1000 0))
       = Inr ((initial (replicate 1000 0))\<lparr>brightness := 64, c_brightness := to_float (262144 / 1000)\<rparr>)
   \<and> to_float (262144 / 1000) = 8589935 / 32768"
proof -
  have h1: "\<bar>64 :: int\<bar> \<le> 255" by simp
  have h2: "data (initial (replicate 1000 0)) \<noteq> []" by (simp add: initial_def)
  have "to_float (of_int 1000) = of_int 1000" by (rule to_float_int) simp
  then have e: "(of_int (64 ^ 3) :: rat) / to_float (of_nat (length (data (initial (replicate 1000 0)))))
      = 262144 / 1000"
    by (simp add: initial_def)
  show ?thesis
    using h1 h2 setBrightness_intensity [OF h1 h2, unfolded e] intensity_64_1000 by simp
qed

section \<open>Failure modes\<close>

text \<open>
  C8 as stated fails: \<open>setBrightness\<close> divides by \<open>getDataSize()\<close> with no guard. On an
  empty buffer the division is by zero, and \<open>refresh\<close> reaches it: the heuristic returns 64
  through its \<open>size < 100\<close> branch, and \<open>setBrightness(brightness_)\<close> follows.
\<close>

theorem setBrightness_empty_counterexample:
  "setBrightness 64 (initial []) = Inl DivisionByZero \<and> refresh (initial []) = Inl DivisionByZero"
proof -
  have s: "setBrightness v (initial []) = Inl DivisionByZero" for v
    by (simp add: setBrightness_def Let_def initial_def)
  have "brightness (initial []) = 64"
    by (simp add: initial_def k_minimum_brightness_def k_maximum_brightness_def)
  moreover have "suggestBrightness (data (initial [])) = Inr 64"
    using suggest_small [of "[]"] by (simp add: initial_def)
  ultimately have "autoSetBrightness (initial []) = Inr (initial [])"
    by (simp add: autoSetBrightness_def)
  then have "refresh (initial []) = Inl DivisionByZero"
    by (simp add: refresh_def s)
  with s show ?thesis by simp
qed

lemma suggest_total: "\<exists>b. suggestBrightness d = Inr b \<and> 38 \<le> b \<and> b \<le> 66"
proof (cases "wrap32 (int (length d)) < 100")
  case True
  then show ?thesis
    by (simp add: suggestBrightness_def Let_def k_minimum_brightness_def k_maximum_brightness_def)
next
  case False
  then have "100 \<le> wrap32 (int (length d))" by simp
  from suggest_large [OF this refl refl]
  obtain k where "suggestBrightness d = Inr (max 38 (66 - int (2 * k div 5)))" by blast
  then show ?thesis by simp
qed

text \<open>
  C8, amended. \<open>suggestBrightness\<close> has no failure mode: for every buffer the size guard
  or the loops' bounds keep every index in range, and the result lies between 38 and 66.
  The timer tick has no partial operation at all. \<open>setBrightness\<close> is not guarded: it
  divides by the data size, so it fails exactly on the empty buffer and succeeds on every
  other.
\<close>

theorem numeric_paths:
  "(\<exists>b. suggestBrightness d = Inr b \<and> 38 \<le> b \<and> b \<le> 66)
   \<and> ((\<exists>w'. setBrightness v w = Inr w') = (data w \<noteq> []))
   \<and> ((setBrightness v w = Inl DivisionByZero) = (data w = []))"
  using suggest_total [of d] by (auto simp: setBrightness_def Let_def)

theorem numeric_paths_witness:
  "(\<exists>b. suggestBrightness (replicate 200 (0x41 :: byte)) = Inr b \<and> 38 \<le> b \<and> b \<le> 66)
   \<and> (\<exists>w'. setBrightness 64 (initial [0x41]) = Inr w')
   \<and> setBrightness 64 (initial []) = Inl DivisionByZero"
  using numeric_paths [of "replicate 200 (0x41 :: byte)" 64 "initial [0x41]"]
    numeric_paths [of "replicate 200 (0x41 :: byte)" 64 "initial []"]
  by (simp add: initial_def)

section \<open>Snapping\<close>

text \<open>
  C7 as stated fails: \<open>setShape\<close> has no \<open>animate\<close> parameter and never writes a blend
  scalar. After the constructor, \<open>setShape(CYLINDER)\<close> leaves \<open>c_cyl\<close> at 0, not at its
  target 1.
\<close>

theorem setShape_snaps_counterexample:
  "c_cyl (setShape CYLINDER (initial [])) \<noteq> 1"
  by (simp add: setShape_def initial_def)

text \<open>
  C7, amended. \<open>setMode\<close> with \<open>animate == false\<close> sets \<open>c_pos\<close> to its target, 1 for
  \<open>LAYERED_DIGRAM\<close> and 0 for \<open>TRIGRAM\<close>, and with \<open>animate == true\<close> leaves it as it is;
  \<open>setShape\<close> has no such flag and only records the shape: \<open>c_cyl\<close> and \<open>c_sph\<close> are left
  to the timer.
\<close>

theorem setMode_snaps:
  "c_pos (setMode m False w) = (if m = LAYERED_DIGRAM then 1 else 0)
   \<and> c_pos (setMode m True w) = c_pos w
   \<and> mode (setMode m animate w) = m
   \<and> c_cyl (setShape s w) = c_cyl w \<and> c_sph (setShape s w) = c_sph w
   \<and> shape (setShape s w) = s"
  by (cases m) (simp_all add: setMode_def setShape_def Let_def)

theorem setMode_snaps_witness:
  "c_pos (setMode LAYERED_DIGRAM False (initial [])) = 1
   \<and> c_pos (setMode TRIGRAM False (setMode LAYERED_DIGRAM False (initial []))) = 0
   \<and> c_cyl (setShape CYLINDER (initial [])) = 0"
  using setMode_snaps [of LAYERED_DIGRAM "initial []" False CYLINDER]
    setMode_snaps [of TRIGRAM "setMode LAYERED_DIGRAM False (initial [])" False CYLINDER]
  by (simp add: initial_def)

section \<open>The timer tick\<close>

lemma advance_angle_sel [simp]:
  "c_cyl (advance_angle w) = c_cyl w" "c_sph (advance_angle w) = c_sph w"
  "c_pos (advance_angle w) = c_pos w" "mode (advance_angle w) = mode w"
  "shape (advance_angle w) = shape w"
  by (simp_all add: advance_angle_def)

lemma step_shape_blends_sel [simp]:
  "c_cyl (step_shape_blends w) = (if shape w = CYLINDER then inc_step (c_cyl w) else dec_step (c_cyl w))"
  "c_sph (step_shape_blends w) = (if shape w = SPHERE then inc_step (c_sph w) else dec_step (c_sph w))"
  "c_pos (step_shape_blends w) = c_pos w" "mode (step_shape_blends w) = mode w"
  "shape (step_shape_blends w) = shape w"
  by (simp_all add: step_shape_blends_def Let_def)

lemma clamp_shape_blends_sel [simp]:
  "c_cyl (clamp_shape_blends w) = (if 1 < c_cyl w then 1 else if c_cyl w < 0 then 0 else c_cyl w)"
  "c_sph (clamp_shape_blends w) = (if 1 < c_sph w then 1 else if c_sph w < 0 then 0 else c_sph w)"
  "c_pos (clamp_shape_blends w) = c_pos w" "mode (clamp_shape_blends w) = mode w"
  "shape (clamp_shape_blends w) = shape w"
  by (simp_all add: clamp_shape_blends_def Let_def)

lemma step_pos_blend_sel [simp]:
  "c_cyl (step_pos_blend w) = c_cyl w" "c_sph (step_pos_blend w) = c_sph w"
  "mode (step_pos_blend w) = mode w" "shape (step_pos_blend w) = shape w"
  by (simp_all add: step_pos_blend_def Let_def)

lemma c_pos_step_pos_blend:
  "c_pos (step_pos_blend w) =
     (if mode w = LAYERED_DIGRAM then (if c_pos w < 1 then min 1 (inc_step (c_pos w)) else c_pos w)
      else (if c_pos w \<noteq> 0 then max 0 (dec_step (c_pos w)) else c_pos w))"
  by (simp add: step_pos_blend_def Let_def min_def max_def)

lemma c_cyl_timerEvent:
  "c_cyl (timerEvent w) =
     (let c = (if shape w = CYLINDER then inc_step (c_cyl w) else dec_step (c_cyl w))
      in if 1 < c then 1 else if c < 0 then 0 else c)"
  by (simp add: timerEvent_def Let_def)

lemma c_sph_timerEvent:
  "c_sph (timerEvent w) =
     (let c = (if shape w = SPHERE then inc_step (c_sph w) else dec_step (c_sph w))
      in if 1 < c then 1 else if c < 0 then 0 else c)"
  by (simp add: timerEvent_def Let_def)

lemma c_pos_timerEvent:
  "c_pos (timerEvent w) =
     (if mode w = LAYERED_DIGRAM then (if c_pos w < 1 then min 1 (inc_step (c_pos w)) else c_pos w)
      else (if c_pos w \<noteq> 0 then max 0 (dec_step (c_pos w)) else c_pos w))"
  by (simp add: timerEvent_def c_pos_step_pos_blend)

lemma mode_timerEvent [simp]: "mode (timerEvent w) = mode w"
  by (simp add: timerEvent_def)

lemma shape_timerEvent [simp]: "shape (timerEvent w) = shape w"
  by (simp add: timerEvent_def)

lemma k_step_eq: "k_step = 5764607523034235 / 2 ^ 59"
  by code_simp

lemma inc_step_lower:
  assumes "0 \<le> c" "c \<le> 1"
  shows "c + 999 / 100000 \<le> inc_step c"
proof -
  define x where "x = c + k_step"
  define y where "y = to_double x"
  have xpos: "0 < x" using assms(1) by (simp add: x_def k_step_eq)
  have y1: "x - x / 2 ^ 53 \<le> y" unfolding y_def to_double_def using xpos by (rule rne_lower)
  have ypos: "0 < y" using y1 xpos by simp
  have z1: "y - y / 2 ^ 24 \<le> to_float y" unfolding to_float_def using ypos by (rule rne_lower)
  have "c + 999 / 100000 \<le> y - y / 2 ^ 24"
    using y1 assms unfolding x_def k_step_eq by (simp add: field_simps)
  with z1 show ?thesis by (simp add: inc_step_def y_def x_def)
qed

lemma dec_step_upper:
  assumes "0 \<le> c" "c \<le> 1"
  shows "dec_step c \<le> max 0 (c - 999 / 100000)"
proof (cases "c - k_step \<le> 0")
  case True
  then have "to_double (c - k_step) \<le> 0" unfolding to_double_def by (rule rne_nonpos)
  then have "to_float (to_double (c - k_step)) \<le> 0" unfolding to_float_def by (rule rne_nonpos)
  then show ?thesis by (simp add: dec_step_def)
next
  case False
  define x where "x = c - k_step"
  define y where "y = to_double x"
  have xpos: "0 < x" using False by (simp add: x_def)
  have y1: "x - x / 2 ^ 53 \<le> y" unfolding y_def to_double_def using xpos by (rule rne_lower)
  have y2: "y \<le> x + x / 2 ^ 53" unfolding y_def to_double_def using xpos by (rule rne_upper)
  have ypos: "0 < y" using y1 xpos by simp
  have z2: "to_float y \<le> y + y / 2 ^ 24" unfolding to_float_def using ypos by (rule rne_upper)
  have "y + y / 2 ^ 24 \<le> c - 999 / 100000"
    using y2 assms unfolding x_def k_step_eq by (simp add: field_simps)
  with z2 have "dec_step c \<le> c - 999 / 100000" by (simp add: dec_step_def y_def x_def)
  then show ?thesis by simp
qed

lemma in_unit_c_pos_timerEvent: "in_unit (c_pos w) \<Longrightarrow> in_unit (c_pos (timerEvent w))"
proof -
  assume a: "in_unit (c_pos w)"
  then have b: "0 \<le> c_pos w" "c_pos w \<le> 1" by (simp_all add: in_unit_def)
  from inc_step_lower [OF b] have i: "0 \<le> inc_step (c_pos w)" using b by linarith
  from dec_step_upper [OF b] have d: "dec_step (c_pos w) \<le> 1" using b by linarith
  show ?thesis unfolding in_unit_def c_pos_timerEvent using b i d by (auto simp: min_def max_def)
qed

lemma blends_ok_timerEvent: "in_unit (c_pos w) \<Longrightarrow> blends_ok (timerEvent w)"
  using in_unit_c_pos_timerEvent [of w]
  by (simp add: blends_ok_def c_cyl_timerEvent c_sph_timerEvent Let_def)
     (simp add: in_unit_def)

lemma blends_ok_act: "blends_ok w \<Longrightarrow> blends_ok (act a w)"
proof (cases a)
  case Tick
  assume "blends_ok w"
  then have "in_unit (c_pos w)" by (simp add: blends_ok_def)
  then show ?thesis using Tick by (simp add: blends_ok_timerEvent)
next
  case (SetShape s)
  assume "blends_ok w"
  then show ?thesis using SetShape by (simp add: blends_ok_def setShape_def)
next
  case (SetMode m animate)
  assume "blends_ok w"
  then show ?thesis using SetMode by (simp add: blends_ok_def setMode_def in_unit_def Let_def)
qed

text \<open>
  C4. From blend scalars in \<open>[0,1]\<close>, any sequence of timer ticks, \<open>setShape\<close> calls and
  \<open>setMode\<close> calls leaves all three blend scalars in \<open>[0,1]\<close>.
\<close>

theorem blends_stay_in_unit:
  "blends_ok w \<Longrightarrow> blends_ok (run as w)"
proof (induction as arbitrary: w)
  case Nil
  then show ?case by simp
next
  case (Cons a as)
  from Cons.prems have "blends_ok (act a w)" by (rule blends_ok_act)
  then have "blends_ok (run as (act a w))" by (rule Cons.IH)
  then show ?case by simp
qed

theorem blends_stay_in_unit_witness:
  "blends_ok (initial [])
   \<and> blends_ok (run [SetShape CYLINDER, Tick, SetMode LAYERED_DIGRAM True, Tick, Tick,
                     SetMode TRIGRAM False, SetShape SPHERE, Tick] (initial []))"
proof -
  have h: "blends_ok (initial [])" by (simp add: blends_ok_def in_unit_def initial_def)
  show ?thesis
    using h blends_stay_in_unit [OF h, of "[SetShape CYLINDER, Tick, SetMode LAYERED_DIGRAM True,
        Tick, Tick, SetMode TRIGRAM False, SetShape SPHERE, Tick]"]
    by simp
qed

section \<open>How long \<open>c_pos\<close> takes\<close>

lemma mode_ticks [simp]: "mode ((timerEvent ^^ n) w) = mode w"
  by (induction n) simp_all

lemma c_pos_up:
  assumes "mode w = LAYERED_DIGRAM" "in_unit (c_pos w)"
  shows "min 1 (c_pos w + of_nat n * (999 / 100000)) \<le> c_pos ((timerEvent ^^ n) w)
         \<and> c_pos ((timerEvent ^^ n) w) \<le> 1"
proof (induction n)
  case 0
  show ?case using assms(2) by (simp add: in_unit_def)
next
  case (Suc n)
  define v where "v = (timerEvent ^^ n) w"
  have m: "mode v = LAYERED_DIGRAM" using assms(1) by (simp add: v_def)
  have lo: "min 1 (c_pos w + of_nat n * (999 / 100000)) \<le> c_pos v" and hi: "c_pos v \<le> 1"
    using Suc by (simp_all add: v_def)
  have nn: "0 \<le> c_pos v" using lo assms(2) by (simp add: in_unit_def min_def split: if_splits)
  have "in_unit (c_pos v)" using nn hi by (simp add: in_unit_def)
  then have hi': "c_pos (timerEvent v) \<le> 1"
    using in_unit_c_pos_timerEvent [of v] by (simp add: in_unit_def)
  have lo': "min 1 (c_pos w + of_nat (Suc n) * (999 / 100000)) \<le> c_pos (timerEvent v)"
  proof (cases "c_pos v < 1")
    case True
    from inc_step_lower [OF nn hi] have "c_pos v + 999 / 100000 \<le> inc_step (c_pos v)" .
    moreover have "c_pos w + of_nat n * (999 / 100000) \<le> c_pos v"
      using lo True by (simp add: min_def split: if_splits)
    moreover have "of_nat (Suc n) * (999 / 100000 :: rat) = of_nat n * (999 / 100000) + 999 / 100000"
      by (simp add: algebra_simps)
    ultimately have "c_pos w + of_nat (Suc n) * (999 / 100000) \<le> inc_step (c_pos v)"
      by linarith
    then show ?thesis using True m by (simp add: c_pos_timerEvent min_def)
  next
    case False
    then show ?thesis using m hi by (simp add: c_pos_timerEvent)
  qed
  show ?case using lo' hi' by (simp add: v_def)
qed

lemma c_pos_down:
  assumes "mode w \<noteq> LAYERED_DIGRAM" "in_unit (c_pos w)"
  shows "0 \<le> c_pos ((timerEvent ^^ n) w)
         \<and> c_pos ((timerEvent ^^ n) w) \<le> max 0 (c_pos w - of_nat n * (999 / 100000))"
proof (induction n)
  case 0
  show ?case using assms(2) by (simp add: in_unit_def)
next
  case (Suc n)
  define v where "v = (timerEvent ^^ n) w"
  have m: "mode v \<noteq> LAYERED_DIGRAM" using assms(1) by (simp add: v_def)
  have nn: "0 \<le> c_pos v" and hi: "c_pos v \<le> max 0 (c_pos w - of_nat n * (999 / 100000))"
    using Suc by (simp_all add: v_def)
  have le1: "c_pos v \<le> 1" using hi assms(2) by (simp add: in_unit_def max_def split: if_splits)
  have "in_unit (c_pos v)" using nn le1 by (simp add: in_unit_def)
  then have nn': "0 \<le> c_pos (timerEvent v)"
    using in_unit_c_pos_timerEvent [of v] by (simp add: in_unit_def)
  have hi': "c_pos (timerEvent v) \<le> max 0 (c_pos w - of_nat (Suc n) * (999 / 100000))"
  proof (cases "c_pos v = 0")
    case True
    then show ?thesis using m by (simp add: c_pos_timerEvent)
  next
    case False
    from dec_step_upper [OF nn le1] have d: "dec_step (c_pos v) \<le> max 0 (c_pos v - 999 / 100000)" .
    have "c_pos v \<le> c_pos w - of_nat n * (999 / 100000)"
      using hi nn False by (simp add: max_def split: if_splits)
    moreover have "of_nat (Suc n) * (999 / 100000 :: rat) = of_nat n * (999 / 100000) + 999 / 100000"
      by (simp add: algebra_simps)
    ultimately have "c_pos v - 999 / 100000 \<le> c_pos w - of_nat (Suc n) * (999 / 100000)"
      by linarith
    then have "max 0 (c_pos v - 999 / 100000) \<le> max 0 (c_pos w - of_nat (Suc n) * (999 / 100000))"
      by (rule max.mono [OF order_refl])
    with d have "max 0 (dec_step (c_pos v)) \<le> max 0 (c_pos w - of_nat (Suc n) * (999 / 100000))"
      by simp
    then show ?thesis using False m by (simp add: c_pos_timerEvent)
  qed
  show ?case using nn' hi' by (simp add: v_def)
qed

lemma inc_step_dyadic:
  "inc_step (of_nat n / 2 ^ 59) = of_nat (round_nat 24 (round_nat 53 (n + 5764607523034235))) / 2 ^ 59"
proof -
  have "of_nat n / 2 ^ 59 + k_step = (of_nat (n + 5764607523034235) :: rat) / 2 ^ 59"
    unfolding k_step_eq of_nat_add of_nat_numeral by (simp add: add_divide_distrib)
  then show ?thesis
    by (simp only: inc_step_def to_double_def to_float_def rne_dyadic)
qed

lemma c_pos_tick_up_nat:
  assumes "mode w = LAYERED_DIGRAM" "c_pos w = of_nat n / 2 ^ 59"
  shows "c_pos (timerEvent w) = of_nat (up_nat n) / 2 ^ 59"
proof -
  have lt: "(c_pos w < 1) = (n < 2 ^ 59)"
  proof -
    have "(c_pos w < 1) = ((of_nat n :: rat) < of_nat (2 ^ 59))"
      unfolding assms(2) by (simp add: field_simps)
    also have "\<dots> = (n < 2 ^ 59)" by (rule of_nat_less_iff)
    finally show ?thesis .
  qed
  define r where "r = round_nat 24 (round_nat 53 (n + 5764607523034235))"
  have mn: "min 1 (of_nat r / 2 ^ 59 :: rat) = of_nat (min (2 ^ 59) r) / 2 ^ 59"
  proof (cases "r \<le> 2 ^ 59")
    case True
    then have "(of_nat r :: rat) \<le> of_nat (2 ^ 59)" by (simp only: of_nat_le_iff)
    then have "(of_nat r :: rat) / 2 ^ 59 \<le> 1" by (simp add: field_simps)
    then show ?thesis using True by (simp add: min_def)
  next
    case False
    then have "(of_nat (2 ^ 59) :: rat) < of_nat r" by (simp only: of_nat_less_iff not_le)
    then have "1 < (of_nat r :: rat) / 2 ^ 59" by (simp add: field_simps)
    then show ?thesis using False by (simp add: min_def)
  qed
  show ?thesis
  proof (cases "n < 2 ^ 59")
    case True
    have "c_pos (timerEvent w) = min 1 (inc_step (c_pos w))"
      by (simp only: c_pos_timerEvent assms(1) lt True if_True simp_thms)
    also have "\<dots> = min 1 (of_nat r / 2 ^ 59)"
      unfolding assms(2) inc_step_dyadic r_def ..
    also have "\<dots> = of_nat (min (2 ^ 59) r) / 2 ^ 59" by (rule mn)
    also have "min (2 ^ 59) r = up_nat n"
      unfolding up_nat_def r_def using True by (simp only: if_True)
    finally show ?thesis .
  next
    case False
    have "c_pos (timerEvent w) = c_pos w"
      by (simp only: c_pos_timerEvent assms(1) lt False if_True if_False simp_thms)
    moreover have "up_nat n = n" unfolding up_nat_def using False by (simp only: if_False)
    ultimately show ?thesis using assms(2) by simp
  qed
qed

lemma c_pos_ticks_up_nat:
  assumes "mode w = LAYERED_DIGRAM" "c_pos w = of_nat n / 2 ^ 59"
  shows "c_pos ((timerEvent ^^ j) w) = of_nat ((up_nat ^^ j) n) / 2 ^ 59"
proof (induction j)
  case 0
  show ?case using assms(2) by simp
next
  case (Suc j)
  have "mode ((timerEvent ^^ j) w) = LAYERED_DIGRAM" using assms(1) by simp
  from c_pos_tick_up_nat [OF this Suc] show ?case by simp
qed

lemma funpow_numeral_unfold: "(f ^^ numeral k) x = f ((f ^^ pred_numeral k) x)"
  by (simp add: numeral_eq_Suc)

lemma up_nat_100: "(up_nat ^^ 100) 0 = 16777205 * 2 ^ 35"
  by (simp add: funpow_numeral_unfold up_nat_def round_nat_def Let_def)

lemma c_pos_idles_at_1:
  assumes "mode w = LAYERED_DIGRAM" "c_pos w = 1"
  shows "c_pos ((timerEvent ^^ j) w) = 1"
proof (induction j)
  case 0
  show ?case using assms(2) by simp
next
  case (Suc j)
  have "mode ((timerEvent ^^ j) w) = LAYERED_DIGRAM" using assms(1) by simp
  then show ?case using Suc by (simp add: c_pos_timerEvent)
qed

text \<open>
  C5 as stated fails. From \<open>c_pos = 0\<close> (the constructor's value) in \<open>LAYERED_DIGRAM\<close>
  mode, 100 ticks leave \<open>c_pos\<close> at \<open>16777205 / 16777216\<close>, about 0.99999934: each
  \<open>c_pos += 0.01\<close> is rounded to a \<open>float\<close>, and the hundred rounded steps fall short
  of 1. No tick up to the hundredth has \<open>c_pos = 1\<close>.
\<close>

theorem c_pos_100_ticks_counterexample:
  "c_pos ((timerEvent ^^ 100) (setMode LAYERED_DIGRAM True (initial []))) = 16777205 / 16777216
   \<and> \<not> (\<exists>n\<le>100. c_pos ((timerEvent ^^ n) (setMode LAYERED_DIGRAM True (initial []))) = 1)"
proof -
  define w where "w = setMode LAYERED_DIGRAM True (initial [])"
  have m: "mode w = LAYERED_DIGRAM" by (simp add: w_def setMode_def Let_def)
  have c: "c_pos w = of_nat 0 / 2 ^ 59" by (simp add: w_def setMode_def Let_def initial_def)
  have v: "c_pos ((timerEvent ^^ 100) w) = 16777205 / 16777216"
    unfolding c_pos_ticks_up_nat [OF m c] up_nat_100 by simp
  have "c_pos ((timerEvent ^^ n) w) \<noteq> 1" if "n \<le> 100" for n
  proof
    assume one: "c_pos ((timerEvent ^^ n) w) = 1"
    have "mode ((timerEvent ^^ n) w) = LAYERED_DIGRAM" using m by simp
    from c_pos_idles_at_1 [OF this one, of "100 - n"]
    have "c_pos ((timerEvent ^^ (100 - n + n)) w) = 1" by (simp only: funpow_add o_apply)
    then have "c_pos ((timerEvent ^^ 100) w) = 1" using that by simp
    with v show False by simp
  qed
  with v show ?thesis unfolding w_def by auto
qed

text \<open>
  C5, amended. With the mode held (a tick never changes it) and \<open>c_pos\<close> in \<open>[0,1]\<close>,
  \<open>c_pos\<close> is exactly 1 after 101 ticks, and after any larger number of ticks, in
  \<open>LAYERED_DIGRAM\<close> mode, and exactly 0 in any other mode.
\<close>

theorem c_pos_settles:
  assumes "in_unit (c_pos w)" "101 \<le> n"
  shows "c_pos ((timerEvent ^^ n) w) = (if mode w = LAYERED_DIGRAM then 1 else 0)
         \<and> mode ((timerEvent ^^ n) w) = mode w"
proof (cases "mode w = LAYERED_DIGRAM")
  case True
  have "(101::rat) \<le> of_nat n" using assms(2) by (metis of_nat_le_iff of_nat_numeral)
  then have "1 \<le> c_pos w + of_nat n * (999 / 100000)"
    using assms(1) by (simp add: in_unit_def)
  then have "min 1 (c_pos w + of_nat n * (999 / 100000)) = 1" by simp
  with c_pos_up [OF True assms(1), of n] show ?thesis using True by simp
next
  case False
  have "(101::rat) \<le> of_nat n" using assms(2) by (metis of_nat_le_iff of_nat_numeral)
  then have "c_pos w - of_nat n * (999 / 100000) \<le> 0"
    using assms(1) by (simp add: in_unit_def)
  then have "max 0 (c_pos w - of_nat n * (999 / 100000)) = 0" by simp
  with c_pos_down [OF False assms(1), of n] show ?thesis using False by simp
qed

theorem c_pos_settles_witness:
  "in_unit (c_pos (initial [])) \<and> (101::nat) \<le> 101
   \<and> c_pos ((timerEvent ^^ 101) (setMode LAYERED_DIGRAM True (initial []))) = 1
   \<and> c_pos ((timerEvent ^^ 101) (setMode TRIGRAM True ((initial [])\<lparr>c_pos := 1\<rparr>))) = 0"
proof -
  have a: "in_unit (c_pos (setMode LAYERED_DIGRAM True (initial [])))"
    by (simp add: in_unit_def setMode_def initial_def Let_def)
  have b: "in_unit (c_pos (setMode TRIGRAM True ((initial [])\<lparr>c_pos := 1\<rparr>)))"
    by (simp add: in_unit_def setMode_def initial_def Let_def)
  have c: "in_unit (c_pos (initial []))" by (simp add: in_unit_def initial_def)
  have m1: "mode (setMode LAYERED_DIGRAM True (initial [])) = LAYERED_DIGRAM"
    by (simp add: setMode_def Let_def)
  have m2: "mode (setMode TRIGRAM True ((initial [])\<lparr>c_pos := 1\<rparr>)) = TRIGRAM"
    by (simp add: setMode_def Let_def)
  show ?thesis
    using c c_pos_settles [OF a, of 101] c_pos_settles [OF b, of 101] m1 m2 by simp
qed

section \<open>Switching manipulators\<close>

text \<open>
  C9. \<open>setManipulator\<close> called with the manipulator that is already current returns at
  once: the widget is left as it was, so no notification is emitted, no manipulator is
  initialised from a transform, and the playing flag, the event filters and the pause
  button are unchanged.
\<close>

theorem setManipulator_same:
  "setManipulator handlesPause (current_manipulator w) w = Inr w"
  by (simp add: setManipulator_def)

theorem setManipulator_same_witness:
  "setManipulator (\<lambda>m. m = Spin) (Some Spin) ((initial [])\<lparr>current_manipulator := Some Spin\<rparr>)
     = Inr ((initial [])\<lparr>current_manipulator := Some Spin\<rparr>)"
  using setManipulator_same [of "\<lambda>m. m = Spin" "(initial [])\<lparr>current_manipulator := Some Spin\<rparr>"]
  by simp

lemma setManipulator_other:
  assumes "current_manipulator w = Some old" "old \<noteq> new" "is_playing w \<or> pause_button w \<noteq> None"
  shows "\<exists>w'. setManipulator handlesPause (Some new) w = Inr w'
          \<and> current_manipulator w' = Some new
          \<and> is_playing w'
          \<and> calls w' = calls w @ [InitFromMatrix new old, ManipulatorChanged (Some new), SetFocus]"
  using assms
  by (cases "pause_button w")
     (auto simp: setManipulator_def installEventFilter_def playPause_def Let_def)

text \<open>
  C10. A key press that \<open>FreeManipulator::isCtrlButton\<close> accepts, while the spin or the
  trackball manipulator is current, makes the free manipulator current and then hands the
  same event to the trackball manipulator, not to the free one. (A paused widget has a
  pause button: \<open>playPause\<close> is the only writer of \<open>is_playing_\<close> and dereferences it.)
\<close>

theorem event_key_promotes:
  assumes "current_manipulator w = Some old" "old = Spin \<or> old = Trackball"
    and "isCtrlButton key" and "is_playing w \<or> pause_button w \<noteq> None"
  shows "\<exists>w'. event handlesPause isCtrlButton (KeyPress key) w = Inr w'
          \<and> current_manipulator w' = Some Free
          \<and> calls w' = calls w @ [InitFromMatrix Free old, ManipulatorChanged (Some Free), SetFocus,
                                   ProcessEvent Trackball (KeyPress key), QWidgetEvent (KeyPress key)]"
proof -
  have "old \<noteq> Free" using assms(2) by auto
  from setManipulator_other [OF assms(1) this assms(4), of handlesPause]
  obtain w1 where w1: "setManipulator handlesPause (Some Free) w = Inr w1"
    "current_manipulator w1 = Some Free"
    "calls w1 = calls w @ [InitFromMatrix Free old, ManipulatorChanged (Some Free), SetFocus]"
    by blast
  show ?thesis using assms(1,2,3) w1 by (auto simp: event_def)
qed

theorem event_key_promotes_witness:
  "\<exists>w'. event (\<lambda>m. m = Spin) (\<lambda>k. k = 16777249) (KeyPress 16777249)
            ((initial [])\<lparr>current_manipulator := Some Spin\<rparr>) = Inr w'
        \<and> current_manipulator w' = Some Free
        \<and> calls w' = [InitFromMatrix Free Spin, ManipulatorChanged (Some Free), SetFocus,
                      ProcessEvent Trackball (KeyPress 16777249), QWidgetEvent (KeyPress 16777249)]"
  using event_key_promotes [of "(initial [])\<lparr>current_manipulator := Some Spin\<rparr>" Spin
      "\<lambda>k. k = 16777249" 16777249 "\<lambda>m. m = Spin"]
  by (simp add: initial_def)

end
